theory Spec2Isabelle
  imports Main "HOL-Library.Word"
begin

section \<open>Manually incremented timers (srslte/common/timers.h)\<close>

text \<open>
  The header holds two classes.  \<^verbatim>\<open>timers\<close> is a registry of a fixed number of
  \<^verbatim>\<open>timer\<close> slots, each stepped on every tick.  \<^verbatim>\<open>timers2\<close> is a growing vector of
  \<^verbatim>\<open>timer_impl\<close> slots reached through move-only \<^verbatim>\<open>unique_timer\<close> handles, with a
  priority queue of \<^verbatim>\<open>timer_run\<close> events ordered by absolute timeout.

  Every \<^verbatim>\<open>uint32_t\<close> of the source is a \<open>32 word\<close>, so \<open>+\<close> and \<open>-\<close> wrap as in C++.
  A callback (a \<^verbatim>\<open>timer_callback*\<close> or a \<^verbatim>\<open>std::function\<close>) is opaque to the header: it
  is modelled by an identifier, with \<open>None\<close> for the null pointer and for the empty
  \<^verbatim>\<open>std::function\<close>.  What the source does besides changing its fields (calling a
  callback, printing an error) is appended to a trace, which the source does not have.
  A callback is taken to return without calling back into the timer classes.

  Field names repeated between the classes carry a prefix here: \<open>t_\<close> for
  \<^verbatim>\<open>timers::timer\<close>, \<open>pool_\<close> for the two fields of \<^verbatim>\<open>timers\<close> that \<^verbatim>\<open>timers2\<close> also has,
  \<open>run_\<close> for \<^verbatim>\<open>timer_run\<close>.
\<close>

type_synonym uint32_t = "32 word"

type_synonym callback_ref = nat

text \<open>
  Modelled from the spec: the macro \<^verbatim>\<open>ERROR\<close>, which this header uses and which is
  defined elsewhere (the header takes it from \<^verbatim>\<open>srslte/srslte.h\<close>).  The spec says of
  every error of the two classes that it is logged and that the call then returns, as a
  no-op or with a sentinel value.  Each use of the macro, like the \<^verbatim>\<open>printf\<close> of
  \<^verbatim>\<open>timers::get\<close>, appends one event to the trace, with the values its message prints.
\<close>

datatype event =
    Timer_expired callback_ref uint32_t
      \<comment> \<open>\<^verbatim>\<open>callback->timer_expired(id)\<close> of \<^verbatim>\<open>timers::timer::step\<close>\<close>
  | Callback_called callback_ref nat
      \<comment> \<open>\<^verbatim>\<open>callback(id())\<close> of \<^verbatim>\<open>timers2::timer_impl::trigger\<close>\<close>
  | Error_invalid_timer uint32_t uint32_t
      \<comment> \<open>the \<^verbatim>\<open>printf\<close> of \<^verbatim>\<open>timers::get\<close>\<close>
  | Error_releasing uint32_t uint32_t uint32_t
      \<comment> \<open>the \<^verbatim>\<open>ERROR\<close> of \<^verbatim>\<open>timers::release_id\<close>: id, nof_used_timers, nof_timers\<close>
  | Error_no_more_timers
      \<comment> \<open>the first \<^verbatim>\<open>ERROR\<close> of \<^verbatim>\<open>timers::get_unique_id\<close>\<close>
  | Error_no_more_timers_but uint32_t uint32_t
      \<comment> \<open>the second \<^verbatim>\<open>ERROR\<close> of \<^verbatim>\<open>timers::get_unique_id\<close>\<close>
  | Error_setting_inactive nat
      \<comment> \<open>the \<^verbatim>\<open>ERROR\<close> of \<^verbatim>\<open>timers2::timer_impl::set\<close>\<close>
  | Error_run_inactive nat
      \<comment> \<open>the \<^verbatim>\<open>ERROR\<close> of \<^verbatim>\<open>timers2::timer_impl::run\<close>\<close>

subsection \<open>The fixed-pool registry: class timers\<close>

record timer =
  t_id :: uint32_t
  t_callback :: "callback_ref option"
  t_timeout :: uint32_t
  t_counter :: uint32_t
  t_running :: bool

text \<open>\<^verbatim>\<open>timer(uint32_t id_=0)\<close>\<close>

definition timer_ctor :: "uint32_t \<Rightarrow> timer" where
  "timer_ctor id0 =
     \<lparr>t_id = id0, t_callback = None, t_timeout = 0, t_counter = 0, t_running = False\<rparr>"

definition reset_timer :: "timer \<Rightarrow> timer" where
  "reset_timer t = t\<lparr>t_counter := 0\<rparr>"

definition set_timer :: "callback_ref option \<Rightarrow> uint32_t \<Rightarrow> timer \<Rightarrow> timer" where
  "set_timer callback0 timeout0 t =
     reset_timer (t\<lparr>t_callback := callback0, t_timeout := timeout0\<rparr>)"

definition is_running_timer :: "timer \<Rightarrow> bool" where
  "is_running_timer t \<longleftrightarrow> t_counter t < t_timeout t \<and> t_running t"

definition is_expired_timer :: "timer \<Rightarrow> bool" where
  "is_expired_timer t \<longleftrightarrow> t_timeout t > 0 \<and> t_counter t \<ge> t_timeout t"

definition get_timeout :: "timer \<Rightarrow> uint32_t" where
  "get_timeout t = t_timeout t"

definition value_timer :: "timer \<Rightarrow> uint32_t" where
  "value_timer t = t_counter t"

text \<open>
  \<^verbatim>\<open>step()\<close> works on the slot and may call the callback: the slot and the trace go in
  and come out together.
\<close>

fun step_timer :: "timer \<times> event list \<Rightarrow> timer \<times> event list" where
  "step_timer (t, tr) =
     (if t_running t then
        (let t1 = t\<lparr>t_counter := t_counter t + 1\<rparr> in
         if is_expired_timer t1 then
           (let t2 = t1\<lparr>t_running := False\<rparr> in
            case t_callback t2 of
              Some c \<Rightarrow> (t2, tr @ [Timer_expired c (t_id t2)])
            | None \<Rightarrow> (t2, tr))
         else (t1, tr))
      else (t, tr))"

definition stop_timer :: "timer \<Rightarrow> timer" where
  "stop_timer t = t\<lparr>t_running := False\<rparr>"

definition run_timer :: "timer \<Rightarrow> timer" where
  "run_timer t = t\<lparr>t_running := True\<rparr>"

record timers =
  next_timer :: uint32_t
  nof_used_timers :: uint32_t
  nof_timers :: uint32_t
  pool_timer_list :: "timer list"
  used_timers :: "bool list"
  pool_trace :: "event list"

text \<open>
  \<^verbatim>\<open>timers(uint32_t nof_timers_)\<close>: both vectors get \<^verbatim>\<open>nof_timers_\<close> elements, slot \<open>i\<close>
  gets id \<open>i\<close> and no id is in use.
\<close>

definition timers_ctor :: "uint32_t \<Rightarrow> timers" where
  "timers_ctor nof_timers0 =
     \<lparr>next_timer = 0, nof_used_timers = 0, nof_timers = nof_timers0,
      pool_timer_list = map (\<lambda>i. timer_ctor (of_nat i)) [0..<unat nof_timers0],
      used_timers = replicate (unat nof_timers0) False,
      pool_trace = []\<rparr>"

text \<open>\<^verbatim>\<open>get(i)\<close>: the slot, or \<^verbatim>\<open>NULL\<close> after a \<^verbatim>\<open>printf\<close>.\<close>

definition get_timer :: "uint32_t \<Rightarrow> timers \<Rightarrow> timer option \<times> timers" where
  "get_timer i s =
     (if i < nof_timers s then (Some (pool_timer_list s ! unat i), s)
      else (None, s\<lparr>pool_trace := pool_trace s @ [Error_invalid_timer i (nof_timers s)]\<rparr>))"

definition release_id :: "uint32_t \<Rightarrow> timers \<Rightarrow> timers" where
  "release_id i s =
     (if nof_used_timers s > 0 \<and> i < nof_timers s then
        s\<lparr>used_timers := (used_timers s)[unat i := False],
          nof_used_timers := nof_used_timers s - 1\<rparr>
      else
        s\<lparr>pool_trace := pool_trace s @
             [Error_releasing i (nof_used_timers s) (nof_timers s)]\<rparr>)"

text \<open>The \<^verbatim>\<open>for\<close> loop of \<^verbatim>\<open>get_unique_id\<close>, from index \<open>i\<close> on, with what follows it.\<close>

function get_unique_id_from :: "uint32_t \<Rightarrow> timers \<Rightarrow> uint32_t \<times> timers" where
  "get_unique_id_from i s =
     (if i < nof_timers s then
        (if \<not> used_timers s ! unat i then
           (i, s\<lparr>used_timers := (used_timers s)[unat i := True],
                 nof_used_timers := nof_used_timers s + 1\<rparr>)
         else get_unique_id_from (i + 1) s)
      else
        (0, s\<lparr>pool_trace := pool_trace s @
                [Error_no_more_timers_but (nof_used_timers s) (nof_timers s)]\<rparr>))"
  by pat_completeness auto
termination
proof (relation "measure (\<lambda>(i, s). unat (nof_timers s) - unat i)")
  show "wf (measure (\<lambda>(i, s). unat (nof_timers s) - unat i))"
    by simp
next
  fix i :: uint32_t and s :: timers
  assume "i < nof_timers s"
  then have "unat i < unat (nof_timers s)"
    by (simp add: word_less_nat_alt)
  moreover have "unat (nof_timers s) < 2 ^ 32"
    using unsigned_less [of "nof_timers s", where ?'a = nat] by simp
  ultimately have "unat (i + 1) = Suc (unat i)" and "unat i < unat (nof_timers s)"
    by (simp_all add: unat_word_ariths)
  then show "((i + 1, s), (i, s)) \<in> measure (\<lambda>(i, s). unat (nof_timers s) - unat i)"
    by simp
qed

declare get_unique_id_from.simps [simp del]

definition get_unique_id :: "timers \<Rightarrow> uint32_t \<times> timers" where
  "get_unique_id s =
     (if nof_used_timers s \<ge> nof_timers s then
        (0, s\<lparr>pool_trace := pool_trace s @ [Error_no_more_timers]\<rparr>)
      else get_unique_id_from 0 s)"

subsection \<open>The heap-scheduled service: class timers2\<close>

text \<open>
  A slot of the vector \<^verbatim>\<open>timer_list\<close> is named by its index, which is what
  \<^verbatim>\<open>timer_impl::id()\<close> computes; the \<^verbatim>\<open>parent\<close> pointer of a slot always points to the
  one service and is left out.  The index is a \<open>nat\<close>: it agrees with the \<^verbatim>\<open>uint32_t\<close>
  of the source as long as the vector has fewer than \<open>2 ^ 32\<close> slots.
\<close>

record timer_impl =
  duration :: uint32_t
  timeout :: uint32_t
  running :: bool
  active :: bool
  callback :: "callback_ref option"

record timer_run =
  run_timer_id :: nat
  run_timeout :: uint32_t

record timers2 =
  timer_list :: "timer_impl list"
  running_timers :: "timer_run list"
  cur_time :: uint32_t
  trace :: "event list"

text \<open>
  A handle: \<open>parent\<close> tells whether its pointer to the service is set (\<open>False\<close> is
  \<^verbatim>\<open>nullptr\<close>, the state of a handle that was moved from).
\<close>

record unique_timer =
  parent :: bool
  timer_id :: nat

text \<open>
  What can go wrong in \<^verbatim>\<open>timers2\<close>: calling an empty \<^verbatim>\<open>std::function\<close> throws
  \<^verbatim>\<open>std::bad_function_call\<close>, and the exception leaves the service in the state it had
  at the call; a handle without parent, or an index beyond the vector, is undefined
  behaviour.
\<close>

datatype error = bad_function_call timers2 | undefined_behaviour

definition timer_impl_ctor :: timer_impl where
  "timer_impl_ctor =
     \<lparr>duration = 0, timeout = 0, running = False, active = False, callback = None\<rparr>"

definition timers2_ctor :: timers2 where
  "timers2_ctor = \<lparr>timer_list = [], running_timers = [], cur_time = 0, trace = []\<rparr>"

definition is_running :: "timer_impl \<Rightarrow> bool" where
  "is_running t \<longleftrightarrow> active t \<and> running t \<and> timeout t > 0"

definition is_expired :: "timer_impl \<Rightarrow> bool" where
  "is_expired t \<longleftrightarrow> active t \<and> \<not> running t \<and> timeout t > 0"

text \<open>
  \<^verbatim>\<open>std::priority_queue<timer_run>\<close> with \<^verbatim>\<open>operator<\<close> comparing timeouts the other
  way round: \<^verbatim>\<open>top()\<close> is an event of least timeout.  The queue is the list of its
  events.  C++ leaves open which of several events of the least timeout is on top;
  here it is the first of the list, and \<open>emplace\<close> puts a new event in front.
\<close>

definition emplace :: "timer_run \<Rightarrow> timer_run list \<Rightarrow> timer_run list" where
  "emplace e q = e # q"

definition top :: "timer_run list \<Rightarrow> timer_run" where
  "top q = arg_min_list run_timeout q"

definition pop :: "timer_run list \<Rightarrow> timer_run list" where
  "pop q = remove1 (top q) q"

text \<open>The methods of \<^verbatim>\<open>timer_impl\<close>, on slot \<open>i\<close> of the service.\<close>

definition timer_impl_set_callback ::
  "nat \<Rightarrow> uint32_t \<Rightarrow> callback_ref option \<Rightarrow> timers2 \<Rightarrow> timers2" where
  "timer_impl_set_callback i duration0 callback0 s =
     (let t = timer_list s ! i in
      if \<not> active t then s\<lparr>trace := trace s @ [Error_setting_inactive i]\<rparr>
      else s\<lparr>timer_list := (timer_list s)
               [i := t\<lparr>callback := callback0, duration := duration0, running := False\<rparr>]\<rparr>)"

definition timer_impl_set :: "nat \<Rightarrow> uint32_t \<Rightarrow> timers2 \<Rightarrow> timers2" where
  "timer_impl_set i duration0 s =
     (let t = timer_list s ! i in
      if \<not> active t then s\<lparr>trace := trace s @ [Error_setting_inactive i]\<rparr>
      else s\<lparr>timer_list := (timer_list s)
               [i := t\<lparr>duration := duration0, running := False\<rparr>]\<rparr>)"

definition timer_impl_run :: "nat \<Rightarrow> timers2 \<Rightarrow> timers2" where
  "timer_impl_run i s =
     (let t = timer_list s ! i in
      if \<not> active t then s\<lparr>trace := trace s @ [Error_run_inactive i]\<rparr>
      else
        (let timeout0 = cur_time s + duration t in
         s\<lparr>timer_list := (timer_list s)[i := t\<lparr>timeout := timeout0, running := True\<rparr>],
           running_timers :=
             emplace \<lparr>run_timer_id = i, run_timeout = timeout0\<rparr> (running_timers s)\<rparr>))"

definition clear :: "timer_impl \<Rightarrow> timer_impl" where
  "clear t =
     t\<lparr>timeout := 0, duration := 0, running := False, active := False, callback := None\<rparr>"

definition trigger :: "nat \<Rightarrow> timers2 \<Rightarrow> error + timers2" where
  "trigger i s =
     (let t = timer_list s ! i in
      if is_running t then
        (case callback t of
           None \<Rightarrow> Inl (bad_function_call s)
         | Some c \<Rightarrow>
             Inr (s\<lparr>timer_list := (timer_list s)[i := t\<lparr>running := False\<rparr>],
                    trace := trace s @ [Callback_called c i]\<rparr>))
      else Inr s)"

text \<open>
  One pass through the body of the \<^verbatim>\<open>while\<close> loop of \<^verbatim>\<open>step_all\<close>: the slot of the top
  event is triggered if its timeout is the one the event recorded, then the event is
  popped.
\<close>

definition step_all_body :: "timers2 \<Rightarrow> error + timers2" where
  "step_all_body s =
     (let e = top (running_timers s) in
      if run_timer_id e < length (timer_list s) then
        (case (if timeout (timer_list s ! run_timer_id e) = run_timeout e
               then trigger (run_timer_id e) s else Inr s) of
           Inl err \<Rightarrow> Inl err
         | Inr s1 \<Rightarrow> Inr (s1\<lparr>running_timers := pop (running_timers s1)\<rparr>))
      else Inl undefined_behaviour)"

text \<open>The \<^verbatim>\<open>while\<close> loop of \<^verbatim>\<open>step_all\<close>.\<close>

function step_all_loop :: "timers2 \<Rightarrow> error + timers2" where
  "step_all_loop s =
     (if running_timers s \<noteq> [] \<and> cur_time s > run_timeout (top (running_timers s)) then
        (case step_all_body s of
           Inl err \<Rightarrow> Inl err
         | Inr s1 \<Rightarrow> step_all_loop s1)
      else Inr s)"
  by pat_completeness auto
termination
proof (relation "measure (\<lambda>s. length (running_timers s))")
  show "wf (measure (\<lambda>s. length (running_timers s)))"
    by simp
next
  fix s :: timers2 and s1 :: timers2
  assume ne: "running_timers s \<noteq> [] \<and> run_timeout (top (running_timers s)) < cur_time s"
    and r: "step_all_body s = Inr s1"
  from r have q: "running_timers s1 = pop (running_timers s)"
    by (auto simp: step_all_body_def trigger_def Let_def split: if_splits option.splits)
  from ne have "top (running_timers s) \<in> set (running_timers s)"
    by (simp add: top_def arg_min_list_in)
  then have "length (pop (running_timers s)) < length (running_timers s)"
    using ne by (simp add: pop_def length_remove1)
  with q show "(s1, s) \<in> measure (\<lambda>s. length (running_timers s))"
    by simp
qed

declare step_all_loop.simps [simp del]

definition step_all :: "timers2 \<Rightarrow> error + timers2" where
  "step_all s = step_all_loop (s\<lparr>cur_time := cur_time s + 1\<rparr>)"

definition stop_all :: "timers2 \<Rightarrow> timers2" where
  "stop_all s =
     s\<lparr>running_timers := [],
       timer_list := map (\<lambda>t. t\<lparr>running := False\<rparr>) (timer_list s)\<rparr>"

text \<open>The \<^verbatim>\<open>for\<close> loop of \<^verbatim>\<open>get_unique_timer\<close>: the index it stops at, from \<open>i\<close> on.\<close>

function first_inactive_from :: "nat \<Rightarrow> timer_impl list \<Rightarrow> nat" where
  "first_inactive_from i ts =
     (if i < length ts then
        (if \<not> active (ts ! i) then i else first_inactive_from (Suc i) ts)
      else i)"
  by pat_completeness auto
termination
  by (relation "measure (\<lambda>(i, ts). length ts - i)") auto

declare first_inactive_from.simps [simp del]

definition unique_timer_ctor :: "nat \<Rightarrow> unique_timer" where
  "unique_timer_ctor timer_id0 = \<lparr>parent = True, timer_id = timer_id0\<rparr>"

definition get_unique_timer :: "timers2 \<Rightarrow> unique_timer \<times> timers2" where
  "get_unique_timer s =
     (let i = first_inactive_from 0 (timer_list s);
          ts = (if i = length (timer_list s) then timer_list s @ [timer_impl_ctor]
                else timer_list s)
      in (unique_timer_ctor i, s\<lparr>timer_list := ts[i := (ts ! i)\<lparr>active := True\<rparr>]\<rparr>))"

definition get_cur_time :: "timers2 \<Rightarrow> uint32_t" where
  "get_cur_time s = cur_time s"

text \<open>
  The methods of \<^verbatim>\<open>unique_timer\<close>.  \<open>impl\<close> is the slot the handle points to, if there
  is one.
\<close>

definition impl :: "unique_timer \<Rightarrow> timers2 \<Rightarrow> nat option" where
  "impl h s = (if parent h \<and> timer_id h < length (timer_list s) then Some (timer_id h) else None)"

text \<open>The move constructor: the new handle, and what is left of the old one.\<close>

definition move_construct :: "unique_timer \<Rightarrow> unique_timer \<times> unique_timer" where
  "move_construct other =
     (\<lparr>parent = parent other, timer_id = timer_id other\<rparr>, other\<lparr>parent := False\<rparr>)"

text \<open>
  Move assignment between two different handle objects (\<^verbatim>\<open>this != &other\<close>): the
  assigned handle, and what is left of the other one.  Assigning a handle to itself
  changes nothing.
\<close>

definition move_assign :: "unique_timer \<Rightarrow> unique_timer \<Rightarrow> unique_timer \<times> unique_timer" where
  "move_assign this other =
     (this\<lparr>timer_id := timer_id other, parent := parent other\<rparr>, other\<lparr>parent := False\<rparr>)"

text \<open>The destructor.\<close>

definition destroy :: "unique_timer \<Rightarrow> timers2 \<Rightarrow> error + timers2" where
  "destroy h s =
     (if parent h then
        (case impl h s of
           None \<Rightarrow> Inl undefined_behaviour
         | Some i \<Rightarrow> Inr (s\<lparr>timer_list := (timer_list s)[i := clear (timer_list s ! i)]\<rparr>))
      else Inr s)"

definition unique_timer_set_callback ::
  "unique_timer \<Rightarrow> uint32_t \<Rightarrow> callback_ref option \<Rightarrow> timers2 \<Rightarrow> error + timers2" where
  "unique_timer_set_callback h duration0 callback0 s =
     (case impl h s of
        None \<Rightarrow> Inl undefined_behaviour
      | Some i \<Rightarrow> Inr (timer_impl_set_callback i duration0 callback0 s))"

definition unique_timer_set :: "unique_timer \<Rightarrow> uint32_t \<Rightarrow> timers2 \<Rightarrow> error + timers2" where
  "unique_timer_set h duration0 s =
     (case impl h s of
        None \<Rightarrow> Inl undefined_behaviour
      | Some i \<Rightarrow> Inr (timer_impl_set i duration0 s))"

definition unique_timer_is_running :: "unique_timer \<Rightarrow> timers2 \<Rightarrow> error + bool" where
  "unique_timer_is_running h s =
     (case impl h s of
        None \<Rightarrow> Inl undefined_behaviour
      | Some i \<Rightarrow> Inr (is_running (timer_list s ! i)))"

definition unique_timer_is_expired :: "unique_timer \<Rightarrow> timers2 \<Rightarrow> error + bool" where
  "unique_timer_is_expired h s =
     (case impl h s of
        None \<Rightarrow> Inl undefined_behaviour
      | Some i \<Rightarrow> Inr (is_expired (timer_list s ! i)))"

definition unique_timer_run :: "unique_timer \<Rightarrow> timers2 \<Rightarrow> error + timers2" where
  "unique_timer_run h s =
     (case impl h s of
        None \<Rightarrow> Inl undefined_behaviour
      | Some i \<Rightarrow> Inr (timer_impl_run i s))"

definition unique_timer_stop :: "unique_timer \<Rightarrow> timers2 \<Rightarrow> error + timers2" where
  "unique_timer_stop h s =
     (case impl h s of
        None \<Rightarrow> Inl undefined_behaviour
      | Some i \<Rightarrow> Inr (s\<lparr>timer_list := (timer_list s)[i := (timer_list s ! i)\<lparr>running := False\<rparr>]\<rparr>))"

subsection \<open>Sequences of calls\<close>

text \<open>\<open>n\<close> calls of \<^verbatim>\<open>get_unique_id()\<close> in a row: the ids returned, in order.\<close>

fun get_unique_ids :: "nat \<Rightarrow> timers \<Rightarrow> uint32_t list \<times> timers" where
  "get_unique_ids 0 s = ([], s)"
| "get_unique_ids (Suc n) s =
     (case get_unique_id s of (i, s1) \<Rightarrow>
        (case get_unique_ids n s1 of (ids, s2) \<Rightarrow> (i # ids, s2)))"

text \<open>\<open>n\<close> calls of \<^verbatim>\<open>timers2::step_all()\<close> in a row, up to the first one that fails.\<close>

fun step_all_times :: "nat \<Rightarrow> timers2 \<Rightarrow> error + timers2" where
  "step_all_times 0 s = Inr s"
| "step_all_times (Suc n) s =
     (case step_all s of Inl err \<Rightarrow> Inl err | Inr s1 \<Rightarrow> step_all_times n s1)"

text \<open>
  The state of the service after a call: the one returned, or the one an exception
  left behind; there is none after undefined behaviour.
\<close>

fun state_after :: "error + timers2 \<Rightarrow> timers2 option" where
  "state_after (Inr s) = Some s"
| "state_after (Inl (bad_function_call s)) = Some s"
| "state_after (Inl undefined_behaviour) = None"

text \<open>The calls of the callback of slot \<open>i\<close> that a trace records.\<close>

fun is_callback_of :: "nat \<Rightarrow> event \<Rightarrow> bool" where
  "is_callback_of i (Callback_called c j) = (j = i)"
| "is_callback_of i _ = False"

definition callbacks_of :: "nat \<Rightarrow> event list \<Rightarrow> event list" where
  "callbacks_of i tr = filter (is_callback_of i) tr"

text \<open>
  Two conditions on a service.  Every event of the queue names a slot of the vector:
  \<^verbatim>\<open>run()\<close> only pushes such events and the vector never shrinks.  Every slot that
  \<^verbatim>\<open>is_running()\<close> has a callback, so that no \<^verbatim>\<open>trigger()\<close> throws.
\<close>

definition events_in_range :: "timers2 \<Rightarrow> bool" where
  "events_in_range s \<longleftrightarrow>
     list_all (\<lambda>e. run_timer_id e < length (timer_list s)) (running_timers s)"

definition callbacks_set :: "timers2 \<Rightarrow> bool" where
  "callbacks_set s \<longleftrightarrow> list_all (\<lambda>t. \<not> is_running t \<or> callback t \<noteq> None) (timer_list s)"

text \<open>
  A program using the service: the service and the handles the program holds.  A call
  names the handles it works on by their position in the list.  The result is \<open>None\<close>
  when the call is undefined behaviour or names a handle that is not there.  An
  exception thrown by \<^verbatim>\<open>step_all()\<close> reaches the program, which goes on with the service
  as the exception left it.  The program gets its handles from \<^verbatim>\<open>get_unique_timer()\<close> and
  from moves; it does not build one for a slot of its choice with the constructor of
  \<^verbatim>\<open>unique_timer\<close>, which \<^verbatim>\<open>get_unique_timer()\<close> uses.
\<close>

record world =
  service :: timers2
  handles :: "unique_timer list"

datatype call =
    Get_unique_timer
  | Move_construct nat
  | Move_assign nat nat
  | Destroy nat
  | Set nat uint32_t
  | Set_callback nat uint32_t "callback_ref option"
  | Run nat
  | Stop nat
  | Step_all
  | Stop_all

definition on_service :: "(error + timers2) \<Rightarrow> world \<Rightarrow> world option" where
  "on_service r w = map_option (\<lambda>s. w\<lparr>service := s\<rparr>) (state_after r)"

fun call_world :: "call \<Rightarrow> world \<Rightarrow> world option" where
  "call_world Get_unique_timer w =
     (case get_unique_timer (service w) of
        (h, s) \<Rightarrow> Some \<lparr>service = s, handles = handles w @ [h]\<rparr>)"
| "call_world (Move_construct k) w =
     (if k < length (handles w) then
        (case move_construct (handles w ! k) of
           (new, old) \<Rightarrow> Some (w\<lparr>handles := (handles w)[k := old] @ [new]\<rparr>))
      else None)"
| "call_world (Move_assign k l) w =
     (if k < length (handles w) \<and> l < length (handles w) then
        (if k \<noteq> l then
           (case move_assign (handles w ! k) (handles w ! l) of
              (this, other) \<Rightarrow> Some (w\<lparr>handles := (handles w)[k := this, l := other]\<rparr>))
         else Some w)
      else None)"
| "call_world (Destroy k) w =
     (if k < length (handles w) then
        map_option
          (\<lambda>s. \<lparr>service = s, handles = take k (handles w) @ drop (Suc k) (handles w)\<rparr>)
          (state_after (destroy (handles w ! k) (service w)))
      else None)"
| "call_world (Set k d) w =
     (if k < length (handles w) then on_service (unique_timer_set (handles w ! k) d (service w)) w
      else None)"
| "call_world (Set_callback k d c) w =
     (if k < length (handles w)
      then on_service (unique_timer_set_callback (handles w ! k) d c (service w)) w
      else None)"
| "call_world (Run k) w =
     (if k < length (handles w) then on_service (unique_timer_run (handles w ! k) (service w)) w
      else None)"
| "call_world (Stop k) w =
     (if k < length (handles w) then on_service (unique_timer_stop (handles w ! k) (service w)) w
      else None)"
| "call_world Step_all w = on_service (step_all (service w)) w"
| "call_world Stop_all w = Some (w\<lparr>service := stop_all (service w)\<rparr>)"

fun calls_world :: "call list \<Rightarrow> world \<Rightarrow> world option" where
  "calls_world [] w = Some w"
| "calls_world (c # cs) w =
     (case call_world c w of None \<Rightarrow> None | Some w1 \<Rightarrow> calls_world cs w1)"

text \<open>
  Slot \<open>i\<close> is due: it is running, its timeout lies before the clock, and the queue
  holds the event of its current timeout.
\<close>

definition due :: "nat \<Rightarrow> timers2 \<Rightarrow> bool" where
  "due i s \<longleftrightarrow>
     is_running (timer_list s ! i) \<and> timeout (timer_list s ! i) < cur_time s \<and>
     \<lparr>run_timer_id = i, run_timeout = timeout (timer_list s ! i)\<rparr> \<in> set (running_timers s)"

text \<open>
  Two services to try things on.  The first is a new service after
  \<^verbatim>\<open>get_unique_timer()\<close>, \<^verbatim>\<open>set(5, cb1)\<close> and \<^verbatim>\<open>run()\<close> on the handle.  The second holds
  one slot that is not active and has its running flag set.
\<close>

definition armed_service :: timers2 where
  "armed_service =
     timer_impl_run 0 (timer_impl_set_callback 0 5 (Some 1) (snd (get_unique_timer timers2_ctor)))"

definition slot_inactive_running :: timers2 where
  "slot_inactive_running =
     \<lparr>timer_list = [\<lparr>duration = 3, timeout = 7, running = True, active = False, callback = Some 1\<rparr>],
      running_timers = [\<lparr>run_timer_id = 0, run_timeout = 7\<rparr>], cur_time = 4, trace = []\<rparr>"

text \<open>
  Slot \<open>j\<close> of a program's service is active, and no handle of the program that has its
  parent points to it.
\<close>

definition unowned_active :: "nat \<Rightarrow> world \<Rightarrow> bool" where
  "unowned_active j w \<longleftrightarrow>
     j < length (timer_list (service w)) \<and> active (timer_list (service w) ! j) \<and>
     list_all (\<lambda>h. \<not> parent h \<or> timer_id h \<noteq> j) (handles w)"

text \<open>A program that has called \<^verbatim>\<open>get_unique_timer()\<close> twice on a new service.\<close>

definition two_handles :: world where
  "two_handles =
     \<lparr>service =
        \<lparr>timer_list =
           [\<lparr>duration = 0, timeout = 0, running = False, active = True, callback = None\<rparr>,
            \<lparr>duration = 0, timeout = 0, running = False, active = True, callback = None\<rparr>],
         running_timers = [], cur_time = 0, trace = []\<rparr>,
      handles = [\<lparr>parent = True, timer_id = 0\<rparr>, \<lparr>parent = True, timer_id = 1\<rparr>]\<rparr>"

section \<open>Properties of the fixed-pool registry\<close>

subsection \<open>Stepping a slot\<close>

lemma step_timer_before_expiry:
  "t_running t \<Longrightarrow> t_counter t = 0 \<Longrightarrow> k < unat (t_timeout t) \<Longrightarrow>
   (step_timer ^^ k) (t, tr) = (t\<lparr>t_counter := of_nat k\<rparr>, tr)"
proof (induction k)
  case 0
  then show ?case by simp
next
  case (Suc k)
  have b: "unat (t_timeout t) < 2 ^ 32"
    using unsigned_less [of "t_timeout t", where ?'a = nat] by simp
  with Suc.prems have k: "Suc k < 2 ^ 32" by simp
  then have u: "unat (of_nat k + 1 :: uint32_t) = Suc k"
    by (simp add: unat_word_ariths unat_of_nat take_bit_nat_eq_self)
  have "\<not> t_timeout t \<le> of_nat k + 1"
    using Suc.prems(3) u by (simp add: word_le_nat_alt)
  with Suc show ?case
    by (simp add: is_expired_timer_def)
qed

lemma step_timer_at_expiry:
  assumes "t_running t" and "t_counter t = 0" and "1 \<le> t_timeout t"
  shows "(step_timer ^^ unat (t_timeout t)) (t, tr) =
    (t\<lparr>t_counter := t_timeout t, t_running := False\<rparr>,
     tr @ (case t_callback t of Some c \<Rightarrow> [Timer_expired c (t_id t)] | None \<Rightarrow> []))"
proof -
  from assms(3) have pos: "0 < unat (t_timeout t)"
    by (simp add: word_le_nat_alt)
  then obtain k where k: "unat (t_timeout t) = Suc k"
    by (cases "unat (t_timeout t)") simp_all
  then have "(step_timer ^^ k) (t, tr) = (t\<lparr>t_counter := of_nat k\<rparr>, tr)"
    using assms by (simp add: step_timer_before_expiry)
  moreover have "of_nat k + 1 = t_timeout t"
    by (metis k of_nat_Suc of_nat_unat ucast_id add.commute)
  moreover from pos have "0 < t_timeout t"
    by (simp add: word_less_nat_alt)
  ultimately show ?thesis
    using assms(1) by (simp add: k is_expired_timer_def split: option.split)
qed

lemma step_timer_not_running:
  "\<not> t_running t \<Longrightarrow> (step_timer ^^ n) (t, tr) = (t, tr)"
  by (induction n) simp_all

text \<open>
  C1, as stated, at \<open>T = 1\<close>: after \<^verbatim>\<open>set(callback, 1)\<close>, \<^verbatim>\<open>run()\<close> and one \<^verbatim>\<open>step()\<close>
  the slot has already called its callback; it is expired and no longer running.
\<close>

theorem timer_step_T_counterexample:
  "(step_timer ^^ unat (1 :: uint32_t)) (run_timer (set_timer (Some 7) 1 (timer_ctor 0)), []) =
     (\<lparr>t_id = 0, t_callback = Some 7, t_timeout = 1, t_counter = 1, t_running = False\<rparr>,
      [Timer_expired 7 0])
   \<and> \<not> is_running_timer
         (fst ((step_timer ^^ unat (1 :: uint32_t))
            (run_timer (set_timer (Some 7) 1 (timer_ctor 0)), [])))
   \<and> is_expired_timer
         (fst ((step_timer ^^ unat (1 :: uint32_t))
            (run_timer (set_timer (Some 7) 1 (timer_ctor 0)), [])))"
  by (simp add: run_timer_def set_timer_def reset_timer_def timer_ctor_def
      is_expired_timer_def is_running_timer_def)

text \<open>
  C1, amended.  For every \<open>T \<ge> 1\<close>, after \<^verbatim>\<open>set(callback, T)\<close> and \<^verbatim>\<open>run()\<close>: after any
  number \<open>k < T\<close> of \<^verbatim>\<open>step()\<close> calls (so after \<open>T - 1\<close> of them) the slot is running,
  not expired, its counter is \<open>k\<close> and no callback was called; after \<open>T\<close> calls, and
  after any greater number, the callback was called exactly once, with the slot's id,
  and the slot is not running.
\<close>

theorem timer_fires_at_step_T:
  assumes "1 \<le> T"
  shows "(\<forall>k < unat T.
            (step_timer ^^ k) (run_timer (set_timer (Some c) T t), tr) =
              (run_timer (set_timer (Some c) T t)\<lparr>t_counter := of_nat k\<rparr>, tr)
            \<and> is_running_timer (fst ((step_timer ^^ k) (run_timer (set_timer (Some c) T t), tr)))
            \<and> \<not> is_expired_timer (fst ((step_timer ^^ k) (run_timer (set_timer (Some c) T t), tr))))
       \<and> (\<forall>n \<ge> unat T.
            (step_timer ^^ n) (run_timer (set_timer (Some c) T t), tr) =
              (run_timer (set_timer (Some c) T t)\<lparr>t_counter := T, t_running := False\<rparr>,
               tr @ [Timer_expired c (t_id t)])
            \<and> \<not> is_running_timer (fst ((step_timer ^^ n) (run_timer (set_timer (Some c) T t), tr))))"
proof (intro conjI allI impI)
  let ?t0 = "run_timer (set_timer (Some c) T t)"
  have r: "t_running ?t0" and z: "t_counter ?t0 = 0" and to: "t_timeout ?t0 = T"
    and cb: "t_callback ?t0 = Some c" and i: "t_id ?t0 = t_id t"
    by (simp_all add: run_timer_def set_timer_def reset_timer_def)
  {
    fix k assume k: "k < unat T"
    then show eq: "(step_timer ^^ k) (?t0, tr) = (?t0\<lparr>t_counter := of_nat k\<rparr>, tr)"
      using r z to by (simp add: step_timer_before_expiry)
    have "k < 2 ^ 32"
      using k unsigned_less [of T, where ?'a = nat] by simp
    then have u: "unat (of_nat k :: uint32_t) = k"
      by (simp add: unat_of_nat take_bit_nat_eq_self)
    with k have lt: "(of_nat k :: uint32_t) < T"
      by (simp add: word_less_nat_alt)
    show "is_running_timer (fst ((step_timer ^^ k) (?t0, tr)))"
      using eq lt r to by (simp add: is_running_timer_def)
    show "\<not> is_expired_timer (fst ((step_timer ^^ k) (?t0, tr)))"
      using eq lt to by (simp add: is_expired_timer_def not_le)
  }
  {
    fix n assume n: "unat T \<le> n"
    have at: "(step_timer ^^ unat T) (?t0, tr) =
        (?t0\<lparr>t_counter := T, t_running := False\<rparr>, tr @ [Timer_expired c (t_id t)])"
      using step_timer_at_expiry [of ?t0 tr] r z to cb i assms by simp
    from n obtain m where m: "n = m + unat T"
      by (metis le_add_diff_inverse2)
    show eq: "(step_timer ^^ n) (?t0, tr) =
        (?t0\<lparr>t_counter := T, t_running := False\<rparr>, tr @ [Timer_expired c (t_id t)])"
      unfolding m funpow_add o_apply at by (simp add: step_timer_not_running)
    show "\<not> is_running_timer (fst ((step_timer ^^ n) (?t0, tr)))"
      using eq by (simp add: is_running_timer_def)
  }
qed

text \<open>The amended C1 at \<open>T = 3\<close>, on a fresh slot with id 0.\<close>

theorem timer_fires_at_step_T_witness:
  "(1 :: uint32_t) \<le> 3
   \<and> (step_timer ^^ 2) (run_timer (set_timer (Some 7) 3 (timer_ctor 0)), []) =
       (run_timer (set_timer (Some 7) 3 (timer_ctor 0))\<lparr>t_counter := 2\<rparr>, [])
   \<and> (step_timer ^^ 3) (run_timer (set_timer (Some 7) 3 (timer_ctor 0)), []) =
       (run_timer (set_timer (Some 7) 3 (timer_ctor 0))\<lparr>t_counter := 3, t_running := False\<rparr>,
        [Timer_expired 7 0])"
proof -
  have h: "(1 :: uint32_t) \<le> 3" by simp
  have u: "unat (3 :: uint32_t) = 3" by simp
  note th = timer_fires_at_step_T [OF h, of 7 "timer_ctor 0" "[]", unfolded u]
  have a: "(step_timer ^^ 2) (run_timer (set_timer (Some 7) 3 (timer_ctor 0)), []) =
       (run_timer (set_timer (Some 7) 3 (timer_ctor 0))\<lparr>t_counter := of_nat 2\<rparr>, [])"
    using th [THEN conjunct1, rule_format, of 2] by simp
  have b: "(step_timer ^^ 3) (run_timer (set_timer (Some 7) 3 (timer_ctor 0)), []) =
       (run_timer (set_timer (Some 7) 3 (timer_ctor 0))\<lparr>t_counter := 3, t_running := False\<rparr>,
        [Timer_expired 7 (t_id (timer_ctor 0))])"
    using th [THEN conjunct2, rule_format, of 3] by simp
  show ?thesis using h a b by (simp add: timer_ctor_def)
qed

text \<open>
  C4, as stated, on a slot that is running (\<^verbatim>\<open>set(cb1, 5)\<close> and \<^verbatim>\<open>run()\<close> on a fresh
  slot): after \<^verbatim>\<open>set(cb2, 3)\<close> the running flag is still set, \<^verbatim>\<open>is_running()\<close> holds,
  and three \<^verbatim>\<open>step()\<close> calls, with no \<^verbatim>\<open>run()\<close> in between, call the new callback.
\<close>

theorem set_timer_running_counterexample:
  "t_running (set_timer (Some 2) 3 (run_timer (set_timer (Some 1) 5 (timer_ctor 0))))
   \<and> is_running_timer (set_timer (Some 2) 3 (run_timer (set_timer (Some 1) 5 (timer_ctor 0))))
   \<and> (step_timer ^^ 3)
        (set_timer (Some 2) 3 (run_timer (set_timer (Some 1) 5 (timer_ctor 0))), []) =
       (\<lparr>t_id = 0, t_callback = Some 2, t_timeout = 3, t_counter = 3, t_running = False\<rparr>,
        [Timer_expired 2 0])"
  by code_simp

text \<open>
  C4, amended.  For every slot, \<^verbatim>\<open>set(callback, timeout)\<close> assigns the callback and the
  timeout and resets the counter to 0; it leaves the running flag and the id as they
  were.  So a slot that was not running stays as \<^verbatim>\<open>set\<close> left it under any number of
  \<^verbatim>\<open>step()\<close> calls, and a slot that was running keeps running: \<^verbatim>\<open>is_running()\<close> holds
  when the new timeout is positive, and the \<open>timeout\<close>-th \<^verbatim>\<open>step()\<close> after the \<^verbatim>\<open>set\<close>
  stops it and calls the new callback (if there is one).
\<close>

theorem set_timer_keeps_running:
  "t_callback (set_timer cb T t) = cb
   \<and> t_timeout (set_timer cb T t) = T
   \<and> t_counter (set_timer cb T t) = 0
   \<and> t_running (set_timer cb T t) = t_running t
   \<and> t_id (set_timer cb T t) = t_id t
   \<and> (is_running_timer (set_timer cb T t) \<longleftrightarrow> t_running t \<and> 0 < T)
   \<and> (\<not> t_running t \<longrightarrow> (\<forall>n. (step_timer ^^ n) (set_timer cb T t, tr) = (set_timer cb T t, tr)))
   \<and> (t_running t \<and> 1 \<le> T \<longrightarrow>
        (step_timer ^^ unat T) (set_timer cb T t, tr) =
          (set_timer cb T t\<lparr>t_counter := T, t_running := False\<rparr>,
           tr @ (case cb of Some c \<Rightarrow> [Timer_expired c (t_id t)] | None \<Rightarrow> [])))"
proof (intro conjI impI allI)
  show "\<And>n. \<not> t_running t \<Longrightarrow> (step_timer ^^ n) (set_timer cb T t, tr) = (set_timer cb T t, tr)"
    by (rule step_timer_not_running) (simp add: set_timer_def reset_timer_def)
  show "t_running t \<and> 1 \<le> T \<Longrightarrow> (step_timer ^^ unat T) (set_timer cb T t, tr) =
          (set_timer cb T t\<lparr>t_counter := T, t_running := False\<rparr>,
           tr @ (case cb of Some c \<Rightarrow> [Timer_expired c (t_id t)] | None \<Rightarrow> []))"
    using step_timer_at_expiry [of "set_timer cb T t" tr]
    by (simp add: set_timer_def reset_timer_def split: option.splits)
qed (simp_all add: set_timer_def reset_timer_def is_running_timer_def conj_commute)

text \<open>
  The amended C4 on a fresh slot that was run, and on a fresh slot that was not, with
  \<^verbatim>\<open>set(cb5, 2)\<close> and two steps.
\<close>

theorem set_timer_keeps_running_witness:
  "t_running (run_timer (timer_ctor 0)) \<and> (1 :: uint32_t) \<le> 2
   \<and> t_running (set_timer (Some 5) 2 (run_timer (timer_ctor 0)))
   \<and> (step_timer ^^ 2) (set_timer (Some 5) 2 (run_timer (timer_ctor 0)), []) =
        (set_timer (Some 5) 2 (run_timer (timer_ctor 0))\<lparr>t_counter := 2, t_running := False\<rparr>,
         [Timer_expired 5 0])
   \<and> \<not> t_running (timer_ctor 0)
   \<and> (step_timer ^^ 2) (set_timer (Some 5) 2 (timer_ctor 0), []) =
        (set_timer (Some 5) 2 (timer_ctor 0), [])"
proof -
  have r: "t_running (run_timer (timer_ctor 0))" and h: "(1 :: uint32_t) \<le> 2"
    and n: "\<not> t_running (timer_ctor 0)" and u: "unat (2 :: uint32_t) = 2"
    by (simp_all add: run_timer_def timer_ctor_def)
  note a = set_timer_keeps_running [of "Some 5" 2 "run_timer (timer_ctor 0)" "[]", unfolded u]
  note b = set_timer_keeps_running [of "Some 5" 2 "timer_ctor 0" "[]"]
  have "t_running (set_timer (Some 5) 2 (run_timer (timer_ctor 0)))"
    using a r by simp
  moreover have "(step_timer ^^ 2) (set_timer (Some 5) 2 (run_timer (timer_ctor 0)), []) =
        (set_timer (Some 5) 2 (run_timer (timer_ctor 0))\<lparr>t_counter := 2, t_running := False\<rparr>,
         [Timer_expired 5 0])"
    using a r h by (simp add: run_timer_def timer_ctor_def)
  moreover have "(step_timer ^^ 2) (set_timer (Some 5) 2 (timer_ctor 0), []) =
        (set_timer (Some 5) 2 (timer_ctor 0), [])"
    using b n by blast
  ultimately show ?thesis using r h n by blast
qed

text \<open>
  C8, as stated, at a counter of \<open>2^32 - 1\<close>: the slot is expired, but after \<^verbatim>\<open>run()\<close>
  the next \<^verbatim>\<open>step()\<close> wraps the counter to 0, so that the slot is no longer expired; it
  keeps running and no callback is called.
\<close>

theorem run_expired_counter_max_counterexample:
  "is_expired_timer
     \<lparr>t_id = 0, t_callback = Some 1, t_timeout = 1, t_counter = 0xFFFFFFFF, t_running = False\<rparr>
   \<and> step_timer
       (run_timer \<lparr>t_id = 0, t_callback = Some 1, t_timeout = 1, t_counter = 0xFFFFFFFF,
          t_running = False\<rparr>, []) =
      (\<lparr>t_id = 0, t_callback = Some 1, t_timeout = 1, t_counter = 0, t_running = True\<rparr>, [])"
  by code_simp

text \<open>
  C8, amended.  For every slot with \<open>timeout > 0\<close>, \<open>counter \<ge> timeout\<close> (it is expired),
  \<open>counter < 2^32 - 1\<close> and a callback: after \<^verbatim>\<open>run()\<close> alone, with no \<^verbatim>\<open>reset()\<close> and no
  \<^verbatim>\<open>set()\<close>, the next \<^verbatim>\<open>step()\<close> increments the counter, stops the slot and calls the
  callback once more.
\<close>

theorem run_expired_fires_again:
  assumes "0 < t_timeout t" and "t_timeout t \<le> t_counter t" and "t_counter t < 0xFFFFFFFF"
    and "t_callback t = Some c"
  shows "is_expired_timer t
    \<and> step_timer (run_timer t, tr) =
        (t\<lparr>t_counter := t_counter t + 1, t_running := False\<rparr>, tr @ [Timer_expired c (t_id t)])"
proof -
  have "unat (t_counter t) < 2 ^ 32 - 1"
    using assms(3) by (simp add: word_less_nat_alt)
  then have "unat (t_counter t + 1) = unat (t_counter t) + 1"
    by (simp add: unat_word_ariths)
  then have "t_timeout t \<le> t_counter t + 1"
    using assms(2) by (simp add: word_le_nat_alt)
  then show ?thesis
    using assms by (simp add: is_expired_timer_def run_timer_def)
qed

text \<open>
  The amended C8 on a slot with timeout 2 that has fired once at counter 2: the
  callback is called a second time.
\<close>

theorem run_expired_fires_again_witness:
  "(0 :: uint32_t) < 2 \<and> (2 :: uint32_t) \<le> 2 \<and> (2 :: uint32_t) < 0xFFFFFFFF
   \<and> step_timer
       (run_timer \<lparr>t_id = 4, t_callback = Some 1, t_timeout = 2, t_counter = 2, t_running = False\<rparr>,
        [Timer_expired 1 4]) =
      (\<lparr>t_id = 4, t_callback = Some 1, t_timeout = 2, t_counter = 3, t_running = False\<rparr>,
       [Timer_expired 1 4, Timer_expired 1 4])"
  using run_expired_fires_again
    [of "\<lparr>t_id = 4, t_callback = Some 1, t_timeout = 2, t_counter = 2, t_running = False\<rparr>" 1
      "[Timer_expired 1 4]"]
  by simp

subsection \<open>Allocating ids\<close>

text \<open>
  C6.  On a registry of capacity 4, four calls of \<^verbatim>\<open>get_unique_id()\<close> return 0, 1, 2, 3
  and leave exactly these four ids marked used with a used-count of 4; a fifth call
  returns 0 and changes nothing but the trace, where it logs that no timer is left.
\<close>

theorem get_unique_id_capacity_4:
  "get_unique_ids 4 (timers_ctor 4) =
     ([0, 1, 2, 3],
      (timers_ctor 4)\<lparr>used_timers := [True, True, True, True], nof_used_timers := 4\<rparr>)
   \<and> get_unique_id
        ((timers_ctor 4)\<lparr>used_timers := [True, True, True, True], nof_used_timers := 4\<rparr>) =
     (0, (timers_ctor 4)\<lparr>used_timers := [True, True, True, True], nof_used_timers := 4,
          pool_trace := [Error_no_more_timers]\<rparr>)
   \<and> used_timers (timers_ctor 4) = [False, False, False, False]
   \<and> nof_used_timers (timers_ctor 4) = 0"
proof (intro conjI)
  show "get_unique_ids 4 (timers_ctor 4) =
     ([0, 1, 2, 3],
      (timers_ctor 4)\<lparr>used_timers := [True, True, True, True], nof_used_timers := 4\<rparr>)"
    by code_simp
  show "get_unique_id
        ((timers_ctor 4)\<lparr>used_timers := [True, True, True, True], nof_used_timers := 4\<rparr>) =
     (0, (timers_ctor 4)\<lparr>used_timers := [True, True, True, True], nof_used_timers := 4,
          pool_trace := [Error_no_more_timers]\<rparr>)"
    by code_simp
  show "used_timers (timers_ctor 4) = [False, False, False, False]"
    by code_simp
  show "nof_used_timers (timers_ctor 4) = 0"
    by code_simp
qed

text \<open>
  C5, as stated, on a registry of capacity 2 where only id 0 is allocated: id 1 is not
  allocated, yet \<^verbatim>\<open>release_id(1)\<close> logs nothing and takes the used-count from 1 to 0.
\<close>

theorem release_id_unallocated_counterexample:
  "\<not> used_timers (snd (get_unique_id (timers_ctor 2))) ! unat (1 :: uint32_t)
   \<and> nof_used_timers (snd (get_unique_id (timers_ctor 2))) = 1
   \<and> release_id 1 (snd (get_unique_id (timers_ctor 2))) =
       (snd (get_unique_id (timers_ctor 2)))\<lparr>nof_used_timers := 0\<rparr>
   \<and> pool_trace (release_id 1 (snd (get_unique_id (timers_ctor 2)))) = []"
proof (intro conjI)
  have s: "snd (get_unique_id (timers_ctor 2)) =
      (timers_ctor 2)\<lparr>used_timers := [True, False], nof_used_timers := 1\<rparr>"
    by code_simp
  show "\<not> used_timers (snd (get_unique_id (timers_ctor 2))) ! unat (1 :: uint32_t)"
    unfolding s by simp
  show "nof_used_timers (snd (get_unique_id (timers_ctor 2))) = 1"
    unfolding s by simp
  show "release_id 1 (snd (get_unique_id (timers_ctor 2))) =
       (snd (get_unique_id (timers_ctor 2)))\<lparr>nof_used_timers := 0\<rparr>"
    unfolding s by (simp add: release_id_def timers_ctor_def)
  show "pool_trace (release_id 1 (snd (get_unique_id (timers_ctor 2)))) = []"
    unfolding s by (simp add: release_id_def timers_ctor_def)
qed

text \<open>
  C5, amended.  For every id \<open>i\<close>, \<^verbatim>\<open>release_id(i)\<close> called when the used-count is zero or
  when \<open>i\<close> is not below \<^verbatim>\<open>nof_timers\<close> logs an error and changes nothing else: the
  used-timers bitmap and the used-count are as before.  In every other case, whether
  or not id \<open>i\<close> is allocated, it sets entry \<open>i\<close> of the bitmap to false, takes one from
  the used-count and logs nothing.
\<close>

theorem release_id_error:
  "(nof_used_timers s = 0 \<or> nof_timers s \<le> i \<longrightarrow>
      release_id i s =
        s\<lparr>pool_trace := pool_trace s @ [Error_releasing i (nof_used_timers s) (nof_timers s)]\<rparr>
      \<and> used_timers (release_id i s) = used_timers s
      \<and> nof_used_timers (release_id i s) = nof_used_timers s)
   \<and> (0 < nof_used_timers s \<and> i < nof_timers s \<longrightarrow>
      release_id i s =
        s\<lparr>used_timers := (used_timers s)[unat i := False],
          nof_used_timers := nof_used_timers s - 1\<rparr>
      \<and> pool_trace (release_id i s) = pool_trace s)"
  by (auto simp: release_id_def word_gt_0 not_less)

text \<open>
  The amended C5 on a registry of capacity 2: a release with nothing allocated, a
  release of id 2 with id 0 allocated, and the release of the allocated id 0.
\<close>

theorem release_id_error_witness:
  "nof_used_timers (timers_ctor 2) = 0
   \<and> release_id 0 (timers_ctor 2) =
       (timers_ctor 2)\<lparr>pool_trace := [Error_releasing 0 0 2]\<rparr>
   \<and> nof_timers (snd (get_unique_id (timers_ctor 2))) \<le> 2
   \<and> release_id 2 (snd (get_unique_id (timers_ctor 2))) =
       (snd (get_unique_id (timers_ctor 2)))\<lparr>pool_trace := [Error_releasing 2 1 2]\<rparr>
   \<and> 0 < nof_used_timers (snd (get_unique_id (timers_ctor 2)))
   \<and> (0 :: uint32_t) < nof_timers (snd (get_unique_id (timers_ctor 2)))
   \<and> release_id 0 (snd (get_unique_id (timers_ctor 2))) = timers_ctor 2"
proof -
  have s: "snd (get_unique_id (timers_ctor 2)) =
      (timers_ctor 2)\<lparr>used_timers := [True, False], nof_used_timers := 1\<rparr>"
    by code_simp
  have z: "nof_used_timers (timers_ctor 2) = 0" and n: "nof_timers (timers_ctor 2) = 2"
    and u: "used_timers (timers_ctor 2) = [False, False]" and t: "pool_trace (timers_ctor 2) = []"
    by code_simp+
  have a: "release_id 0 (timers_ctor 2) = (timers_ctor 2)\<lparr>pool_trace := [Error_releasing 0 0 2]\<rparr>"
    using release_id_error [of "timers_ctor 2" 0] z n t by simp
  have b: "release_id 2 (snd (get_unique_id (timers_ctor 2))) =
       (snd (get_unique_id (timers_ctor 2)))\<lparr>pool_trace := [Error_releasing 2 1 2]\<rparr>"
    using release_id_error [of "snd (get_unique_id (timers_ctor 2))" 2] n t unfolding s by simp
  have c: "release_id 0 (snd (get_unique_id (timers_ctor 2))) = timers_ctor 2"
    using release_id_error [of "snd (get_unique_id (timers_ctor 2))" 0] n u unfolding s
    by (simp add: timers_ctor_def)
  show ?thesis using a b c z n unfolding s by simp
qed

section \<open>Properties of the heap-scheduled service\<close>

subsection \<open>The two services\<close>

lemma get_unique_timer_fresh:
  "get_unique_timer timers2_ctor =
     (\<lparr>parent = True, timer_id = 0\<rparr>,
      \<lparr>timer_list = [\<lparr>duration = 0, timeout = 0, running = False, active = True, callback = None\<rparr>],
       running_timers = [], cur_time = 0, trace = []\<rparr>)"
  by code_simp

lemma armed_service_eq:
  "armed_service =
     \<lparr>timer_list = [\<lparr>duration = 5, timeout = 5, running = True, active = True, callback = Some 1\<rparr>],
      running_timers = [\<lparr>run_timer_id = 0, run_timeout = 5\<rparr>], cur_time = 0, trace = []\<rparr>"
  unfolding armed_service_def get_unique_timer_fresh
  by (simp add: timer_impl_run_def timer_impl_set_callback_def emplace_def)

subsection \<open>Handles\<close>

lemma clear_eq:
  "clear t = \<lparr>duration = 0, timeout = 0, running = False, active = False, callback = None\<rparr>"
  by (cases t) (simp add: clear_def)

text \<open>
  C7.  Destroying a handle that has its parent, so that it still owns its slot, clears
  the slot (duration 0, timeout 0, not running, not active, no callback), calls no
  callback (the trace is as before) and leaves the other slots alone.  After a move,
  by construction or by assignment, destroying the handle moved from changes nothing,
  and destroying the handle moved to does what destroying the original would have done.
\<close>

theorem destroy_clears_owned_slot:
  assumes "parent h" and "timer_id h < length (timer_list s)"
  shows "destroy h s =
       Inr (s\<lparr>timer_list := (timer_list s)
              [timer_id h :=
                 \<lparr>duration = 0, timeout = 0, running = False, active = False, callback = None\<rparr>]\<rparr>)
     \<and> (\<exists>s1. destroy h s = Inr s1 \<and> trace s1 = trace s
          \<and> (\<forall>j. j \<noteq> timer_id h \<longrightarrow> timer_list s1 ! j = timer_list s ! j))
     \<and> destroy (snd (move_construct h)) s = Inr s
     \<and> destroy (fst (move_construct h)) s = destroy h s
     \<and> destroy (snd (move_assign g h)) s = Inr s
     \<and> destroy (fst (move_assign g h)) s = destroy h s"
  using assms
  by (simp add: destroy_def impl_def clear_eq move_construct_def move_assign_def)

text \<open>C7 on the handle of the running timer of \<open>armed_service\<close>.\<close>

theorem destroy_clears_owned_slot_witness:
  "parent (unique_timer_ctor 0) \<and> timer_id (unique_timer_ctor 0) < length (timer_list armed_service)
   \<and> destroy (unique_timer_ctor 0) armed_service =
      Inr \<lparr>timer_list =
             [\<lparr>duration = 0, timeout = 0, running = False, active = False, callback = None\<rparr>],
           running_timers = [\<lparr>run_timer_id = 0, run_timeout = 5\<rparr>], cur_time = 0, trace = []\<rparr>
   \<and> destroy (snd (move_construct (unique_timer_ctor 0))) armed_service = Inr armed_service
   \<and> destroy (fst (move_construct (unique_timer_ctor 0))) armed_service =
      Inr \<lparr>timer_list =
             [\<lparr>duration = 0, timeout = 0, running = False, active = False, callback = None\<rparr>],
           running_timers = [\<lparr>run_timer_id = 0, run_timeout = 5\<rparr>], cur_time = 0, trace = []\<rparr>"
proof -
  have p: "parent (unique_timer_ctor 0)"
    and l: "timer_id (unique_timer_ctor 0) < length (timer_list armed_service)"
    by (simp_all add: unique_timer_ctor_def armed_service_eq)
  note th = destroy_clears_owned_slot [OF p l]
  have d: "destroy (unique_timer_ctor 0) armed_service = Inr \<lparr>timer_list =
             [\<lparr>duration = 0, timeout = 0, running = False, active = False, callback = None\<rparr>],
           running_timers = [\<lparr>run_timer_id = 0, run_timeout = 5\<rparr>], cur_time = 0, trace = []\<rparr>"
    using th by (simp add: armed_service_eq unique_timer_ctor_def)
  moreover have "destroy (snd (move_construct (unique_timer_ctor 0))) armed_service = Inr armed_service"
    using th by blast
  moreover have "destroy (fst (move_construct (unique_timer_ctor 0))) armed_service =
      destroy (unique_timer_ctor 0) armed_service"
    using th by blast
  ultimately show ?thesis using p l by simp
qed

text \<open>
  C10.  \<^verbatim>\<open>stop()\<close> on a handle that points to a slot does not look at \<open>active\<close>: in every
  state of the slot it returns, sets \<open>running\<close> to false and changes nothing else, neither
  in the slot nor in the other slots, the queue, the clock or the trace, so it logs
  nothing.  On a slot that is not active \<^verbatim>\<open>set()\<close> and \<^verbatim>\<open>run()\<close>, unlike it, log an
  error and change nothing.
\<close>

theorem unique_timer_stop_unconditional:
  assumes "parent h" and "timer_id h < length (timer_list s)"
  shows "unique_timer_stop h s =
       Inr (s\<lparr>timer_list :=
               (timer_list s)[timer_id h := (timer_list s ! timer_id h)\<lparr>running := False\<rparr>]\<rparr>)
    \<and> (\<exists>s1. unique_timer_stop h s = Inr s1
      \<and> length (timer_list s1) = length (timer_list s)
      \<and> running (timer_list s1 ! timer_id h) = False
      \<and> duration (timer_list s1 ! timer_id h) = duration (timer_list s ! timer_id h)
      \<and> timeout (timer_list s1 ! timer_id h) = timeout (timer_list s ! timer_id h)
      \<and> active (timer_list s1 ! timer_id h) = active (timer_list s ! timer_id h)
      \<and> callback (timer_list s1 ! timer_id h) = callback (timer_list s ! timer_id h)
      \<and> (\<forall>j. j \<noteq> timer_id h \<longrightarrow> timer_list s1 ! j = timer_list s ! j)
      \<and> running_timers s1 = running_timers s
      \<and> cur_time s1 = cur_time s
      \<and> trace s1 = trace s)
    \<and> (\<not> active (timer_list s ! timer_id h) \<longrightarrow>
      unique_timer_set h d s = Inr (s\<lparr>trace := trace s @ [Error_setting_inactive (timer_id h)]\<rparr>)
      \<and> unique_timer_set_callback h d c s =
          Inr (s\<lparr>trace := trace s @ [Error_setting_inactive (timer_id h)]\<rparr>)
      \<and> unique_timer_run h s = Inr (s\<lparr>trace := trace s @ [Error_run_inactive (timer_id h)]\<rparr>))"
  using assms
  by (simp add: unique_timer_stop_def unique_timer_set_def unique_timer_set_callback_def
      unique_timer_run_def impl_def timer_impl_set_def timer_impl_set_callback_def
      timer_impl_run_def)

text \<open>C10 on the slot of \<open>slot_inactive_running\<close>, which is not active.\<close>

theorem unique_timer_stop_unconditional_witness:
  "parent (unique_timer_ctor 0) \<and> timer_id (unique_timer_ctor 0) < length (timer_list slot_inactive_running)
   \<and> \<not> active (timer_list slot_inactive_running ! timer_id (unique_timer_ctor 0))
   \<and> unique_timer_stop (unique_timer_ctor 0) slot_inactive_running =
       Inr \<lparr>timer_list = [\<lparr>duration = 3, timeout = 7, running = False, active = False, callback = Some 1\<rparr>],
            running_timers = [\<lparr>run_timer_id = 0, run_timeout = 7\<rparr>], cur_time = 4, trace = []\<rparr>
   \<and> unique_timer_run (unique_timer_ctor 0) slot_inactive_running =
       Inr (slot_inactive_running\<lparr>trace := [Error_run_inactive 0]\<rparr>)"
proof -
  have p: "parent (unique_timer_ctor 0)"
    and l: "timer_id (unique_timer_ctor 0) < length (timer_list slot_inactive_running)"
    and a: "\<not> active (timer_list slot_inactive_running ! timer_id (unique_timer_ctor 0))"
    by (simp_all add: unique_timer_ctor_def slot_inactive_running_def)
  note th = unique_timer_stop_unconditional [OF p l]
  have "unique_timer_stop (unique_timer_ctor 0) slot_inactive_running =
       Inr \<lparr>timer_list = [\<lparr>duration = 3, timeout = 7, running = False, active = False, callback = Some 1\<rparr>],
            running_timers = [\<lparr>run_timer_id = 0, run_timeout = 7\<rparr>], cur_time = 4, trace = []\<rparr>"
    using th by (simp add: unique_timer_ctor_def slot_inactive_running_def)
  moreover have "unique_timer_run (unique_timer_ctor 0) slot_inactive_running =
       Inr (slot_inactive_running\<lparr>trace := [Error_run_inactive 0]\<rparr>)"
    using th a by (simp add: unique_timer_ctor_def slot_inactive_running_def)
  ultimately show ?thesis using p l a by simp
qed

subsection \<open>The loop of step_all\<close>

lemma top_in_set: "q \<noteq> [] \<Longrightarrow> top q \<in> set q"
  by (simp add: top_def arg_min_list_in)

lemma top_least: "e \<in> set q \<Longrightarrow> run_timeout (top q) \<le> run_timeout e"
proof -
  assume e: "e \<in> set q"
  then have "q \<noteq> []" by auto
  then have "run_timeout (top q) = Min (run_timeout ` set q)"
    by (simp add: top_def f_arg_min_list_f)
  with e show ?thesis by simp
qed

lemma trigger_cases:
  "trigger j s =
     (if is_running (timer_list s ! j) then
        (case callback (timer_list s ! j) of
           None \<Rightarrow> Inl (bad_function_call s)
         | Some c \<Rightarrow>
             Inr (s\<lparr>timer_list := (timer_list s)[j := (timer_list s ! j)\<lparr>running := False\<rparr>],
                    trace := trace s @ [Callback_called c j]\<rparr>))
      else Inr s)"
  by (simp add: trigger_def Let_def)

lemma step_all_body_Inr:
  assumes "step_all_body s = Inr s1"
  shows "running_timers s1 = pop (running_timers s)"
    and "cur_time s1 = cur_time s"
    and "length (timer_list s1) = length (timer_list s)"
    and "run_timer_id (top (running_timers s)) < length (timer_list s)"
  using assms
  by (auto simp: step_all_body_def trigger_cases Let_def split: if_splits option.splits)

lemma step_all_body_Inl:
  assumes "step_all_body s = Inl err"
  shows "err = bad_function_call s \<or>
    (err = undefined_behaviour \<and> \<not> run_timer_id (top (running_timers s)) < length (timer_list s))"
  using assms
  by (auto simp: step_all_body_def trigger_cases Let_def split: if_splits option.splits)

text \<open>What one pass of the loop body does to slot \<open>i\<close>.\<close>

lemma step_all_body_slot:
  assumes "step_all_body s = Inr s1" and "i < length (timer_list s)"
  shows "if top (running_timers s) = \<lparr>run_timer_id = i, run_timeout = timeout (timer_list s ! i)\<rparr>
            \<and> is_running (timer_list s ! i)
         then timer_list s1 ! i = (timer_list s ! i)\<lparr>running := False\<rparr>
            \<and> (\<exists>c. callback (timer_list s ! i) = Some c
                 \<and> callbacks_of i (trace s1) = callbacks_of i (trace s) @ [Callback_called c i])
         else timer_list s1 ! i = timer_list s ! i
            \<and> callbacks_of i (trace s1) = callbacks_of i (trace s)"
proof -
  obtain j to where e: "top (running_timers s) = \<lparr>run_timer_id = j, run_timeout = to\<rparr>"
    by (cases "top (running_timers s)") simp
  show ?thesis
    using assms
    by (auto simp: e step_all_body_def trigger_cases Let_def callbacks_of_def nth_list_update
        split: if_splits option.splits)
qed

lemma step_all_body_stops_only:
  assumes "step_all_body s = Inr s1" and "k < length (timer_list s)"
  shows "timer_list s1 ! k = timer_list s ! k
       \<or> timer_list s1 ! k = (timer_list s ! k)\<lparr>running := False\<rparr>"
  using assms
  by (auto simp: step_all_body_def trigger_cases Let_def nth_list_update
      split: if_splits option.splits)

lemma step_all_loop_unfold:
  "step_all_loop s =
     (if running_timers s \<noteq> [] \<and> run_timeout (top (running_timers s)) < cur_time s then
        (case step_all_body s of Inl err \<Rightarrow> Inl err | Inr s1 \<Rightarrow> step_all_loop s1)
      else Inr s)"
  by (rule step_all_loop.simps)

text \<open>
  A loop that returns leaves the clock alone, keeps exactly the events that are not
  yet overdue, and changes no slot except for clearing \<open>running\<close>.
\<close>

lemma step_all_loop_Inr:
  "step_all_loop s = Inr s' \<Longrightarrow>
     cur_time s' = cur_time s \<and> length (timer_list s') = length (timer_list s)
     \<and> running_timers s' = filter (\<lambda>e. cur_time s \<le> run_timeout e) (running_timers s)
     \<and> (\<forall>k < length (timer_list s).
          timer_list s' ! k = timer_list s ! k
          \<or> timer_list s' ! k = (timer_list s ! k)\<lparr>running := False\<rparr>)"
proof (induction s rule: step_all_loop.induct)
  case (1 s)
  let ?P = "\<lambda>e. cur_time s \<le> run_timeout e"
  show ?case
  proof (cases "running_timers s \<noteq> [] \<and> run_timeout (top (running_timers s)) < cur_time s")
    case True
    from "1.prems"(1)
    have "(case step_all_body s of Inl err \<Rightarrow> Inl err | Inr s1 \<Rightarrow> step_all_loop s1) = Inr s'"
      by (subst (asm) step_all_loop_unfold) (simp add: True)
    then obtain s1 where b: "step_all_body s = Inr s1" and l: "step_all_loop s1 = Inr s'"
      by (cases "step_all_body s") simp_all
    note ih = "1.IH" [OF True b l]
    note bs = step_all_body_Inr [OF b]
    from True have np: "\<not> ?P (top (running_timers s))"
      by (simp add: not_le)
    have "filter ?P (pop (running_timers s)) = filter ?P (running_timers s)"
      unfolding pop_def using np by (simp add: filter_remove1 remove1_idem)
    moreover have "\<forall>k < length (timer_list s).
          timer_list s' ! k = timer_list s ! k
          \<or> timer_list s' ! k = (timer_list s ! k)\<lparr>running := False\<rparr>"
    proof (intro allI impI)
      fix k assume k: "k < length (timer_list s)"
      from ih k bs have "timer_list s' ! k = timer_list s1 ! k
          \<or> timer_list s' ! k = (timer_list s1 ! k)\<lparr>running := False\<rparr>"
        by simp
      with step_all_body_stops_only [OF b k]
      show "timer_list s' ! k = timer_list s ! k
          \<or> timer_list s' ! k = (timer_list s ! k)\<lparr>running := False\<rparr>"
        by auto
    qed
    ultimately show ?thesis
      using ih bs by simp
  next
    case False
    from "1.prems"(1) have eq: "s' = s"
      by (subst (asm) step_all_loop_unfold) (simp add: False)
    have "filter ?P (running_timers s) = running_timers s"
    proof (cases "running_timers s = []")
      case True
      then show ?thesis by simp
    next
      case ne: False
      with False have "cur_time s \<le> run_timeout (top (running_timers s))"
        by (simp add: not_less)
      then have "\<forall>e \<in> set (running_timers s). ?P e"
        by (meson top_least order_trans)
      then show ?thesis by (simp add: filter_id_conv)
    qed
    with eq show ?thesis by simp
  qed
qed

text \<open>What a loop that returns does to slot \<open>i\<close>: its callback is called once if the
  slot is due, and not at all otherwise.\<close>

lemma step_all_loop_slot:
  "step_all_loop s = Inr s' \<Longrightarrow> i < length (timer_list s) \<Longrightarrow>
     (if due i s
      then timer_list s' ! i = (timer_list s ! i)\<lparr>running := False\<rparr>
         \<and> (\<exists>c. callback (timer_list s ! i) = Some c
              \<and> callbacks_of i (trace s') = callbacks_of i (trace s) @ [Callback_called c i])
      else timer_list s' ! i = timer_list s ! i
         \<and> callbacks_of i (trace s') = callbacks_of i (trace s))"
proof (induction s rule: step_all_loop.induct)
  case (1 s)
  let ?x = "\<lparr>run_timer_id = i, run_timeout = timeout (timer_list s ! i)\<rparr>"
  show ?case
  proof (cases "running_timers s \<noteq> [] \<and> run_timeout (top (running_timers s)) < cur_time s")
    case True
    from "1.prems"(1)
    have "(case step_all_body s of Inl err \<Rightarrow> Inl err | Inr s1 \<Rightarrow> step_all_loop s1) = Inr s'"
      by (subst (asm) step_all_loop_unfold) (simp add: True)
    then obtain s1 where b: "step_all_body s = Inr s1" and l: "step_all_loop s1 = Inr s'"
      by (cases "step_all_body s") simp_all
    note bs = step_all_body_Inr [OF b]
    from "1.prems"(2) bs have i1: "i < length (timer_list s1)" by simp
    note ih = "1.IH" [OF True b l i1]
    note slot = step_all_body_slot [OF b "1.prems"(2)]
    show ?thesis
    proof (cases "top (running_timers s) = ?x \<and> is_running (timer_list s ! i)")
      case now: True
      with slot have s1: "timer_list s1 ! i = (timer_list s ! i)\<lparr>running := False\<rparr>"
        and "\<exists>c. callback (timer_list s ! i) = Some c
          \<and> callbacks_of i (trace s1) = callbacks_of i (trace s) @ [Callback_called c i]"
        by simp_all
      then obtain c where c: "callback (timer_list s ! i) = Some c"
        and tr: "callbacks_of i (trace s1) = callbacks_of i (trace s) @ [Callback_called c i]"
        by blast
      from s1 have "\<not> due i s1"
        by (simp add: due_def is_running_def)
      moreover have "due i s"
        using now True top_in_set [of "running_timers s"]
        by (auto simp: due_def)
      ultimately show ?thesis
        using ih s1 c tr by simp
    next
      case later: False
      with slot have s1: "timer_list s1 ! i = timer_list s ! i"
        and tr: "callbacks_of i (trace s1) = callbacks_of i (trace s)"
        by auto
      have d: "due i s1 \<longleftrightarrow> due i s"
      proof (cases "top (running_timers s) = ?x")
        case True
        with later have "\<not> is_running (timer_list s ! i)" by simp
        then show ?thesis by (simp add: due_def s1)
      next
        case False
        then have "?x \<in> set (pop (running_timers s)) \<longleftrightarrow> ?x \<in> set (running_timers s)"
          unfolding pop_def by (metis in_set_remove1)
        then show ?thesis
          by (simp add: due_def s1 bs)
      qed
      show ?thesis
        using ih unfolding d s1 tr .
    qed
  next
    case False
    from "1.prems"(1) have eq: "s' = s"
      by (subst (asm) step_all_loop_unfold) (simp add: False)
    have "\<not> due i s"
    proof
      assume d: "due i s"
      then have "run_timeout (top (running_timers s)) \<le> timeout (timer_list s ! i)"
        using top_least [of ?x "running_timers s"] by (simp add: due_def)
      with d have "running_timers s \<noteq> [] \<and> run_timeout (top (running_timers s)) < cur_time s"
        by (auto simp: due_def)
      with False show False by contradiction
    qed
    with eq show ?thesis by simp
  qed
qed

lemma events_in_range_subset:
  assumes "events_in_range s" and "set (running_timers s') \<subseteq> set (running_timers s)"
    and "length (timer_list s') = length (timer_list s)"
  shows "events_in_range s'"
  using assms by (auto simp: events_in_range_def list_all_iff)

lemma callbacks_set_stops_only:
  assumes "callbacks_set s" and "length (timer_list s') = length (timer_list s)"
    and "\<forall>k < length (timer_list s).
          timer_list s' ! k = timer_list s ! k
          \<or> timer_list s' ! k = (timer_list s ! k)\<lparr>running := False\<rparr>"
  shows "callbacks_set s'"
  unfolding callbacks_set_def list_all_length
proof (intro allI impI)
  fix k assume k: "k < length (timer_list s')"
  with assms(1,2) have "\<not> is_running (timer_list s ! k) \<or> callback (timer_list s ! k) \<noteq> None"
    by (simp add: callbacks_set_def list_all_length)
  moreover from assms(2,3) k have "timer_list s' ! k = timer_list s ! k
          \<or> timer_list s' ! k = (timer_list s ! k)\<lparr>running := False\<rparr>"
    by simp
  ultimately show "\<not> is_running (timer_list s' ! k) \<or> callback (timer_list s' ! k) \<noteq> None"
    by (auto simp: is_running_def)
qed

lemma step_all_body_total:
  assumes "events_in_range s" and "callbacks_set s" and "running_timers s \<noteq> []"
  shows "\<exists>s1. step_all_body s = Inr s1"
proof -
  from assms(1,3) have r: "run_timer_id (top (running_timers s)) < length (timer_list s)"
    using top_in_set [of "running_timers s"] by (auto simp: events_in_range_def list_all_iff)
  with assms(2)
  have "\<not> is_running (timer_list s ! run_timer_id (top (running_timers s)))
      \<or> callback (timer_list s ! run_timer_id (top (running_timers s))) \<noteq> None"
    by (simp add: callbacks_set_def list_all_length)
  with r show ?thesis
    by (auto simp: step_all_body_def trigger_cases Let_def)
qed

lemma step_all_body_keeps:
  assumes "step_all_body s = Inr s1"
  shows "events_in_range s \<Longrightarrow> events_in_range s1"
    and "callbacks_set s \<Longrightarrow> callbacks_set s1"
proof -
  note bs = step_all_body_Inr [OF assms]
  have "set (running_timers s1) \<subseteq> set (running_timers s)"
    by (simp add: bs pop_def set_remove1_subset)
  then show "events_in_range s \<Longrightarrow> events_in_range s1"
    using bs(3) by (rule events_in_range_subset [rotated])
  assume c: "callbacks_set s"
  have "\<forall>k < length (timer_list s).
          timer_list s1 ! k = timer_list s ! k
          \<or> timer_list s1 ! k = (timer_list s ! k)\<lparr>running := False\<rparr>"
    using step_all_body_stops_only [OF assms] by simp
  with c bs(3) show "callbacks_set s1"
    by (rule callbacks_set_stops_only)
qed

text \<open>With every event in range and every running slot holding a callback, the loop returns.\<close>

lemma step_all_loop_total:
  "events_in_range s \<Longrightarrow> callbacks_set s \<Longrightarrow> \<exists>s'. step_all_loop s = Inr s'"
proof (induction s rule: step_all_loop.induct)
  case (1 s)
  show ?case
  proof (cases "running_timers s \<noteq> [] \<and> run_timeout (top (running_timers s)) < cur_time s")
    case True
    with "1.prems" obtain s1 where b: "step_all_body s = Inr s1"
      using step_all_body_total by blast
    from "1.IH" [OF True b] step_all_body_keeps [OF b] "1.prems"
    obtain s' where "step_all_loop s1 = Inr s'" by blast
    then have "step_all_loop s = Inr s'"
      by (subst step_all_loop_unfold) (simp add: True b)
    then show ?thesis ..
  next
    case False
    have "step_all_loop s = Inr s"
      by (subst step_all_loop_unfold) (simp add: False)
    then show ?thesis ..
  qed
qed

text \<open>
  Whether the loop returns or throws: the clock is left alone, no event is added, slots
  change by clearing \<open>running\<close> only, and a slot that is not running has no callback
  called.  With every event in range there is no undefined behaviour.
\<close>

lemma step_all_loop_after:
  "state_after (step_all_loop s) = Some s' \<Longrightarrow>
     cur_time s' = cur_time s \<and> length (timer_list s') = length (timer_list s)
     \<and> set (running_timers s') \<subseteq> set (running_timers s)
     \<and> (\<forall>k < length (timer_list s).
          timer_list s' ! k = timer_list s ! k
          \<or> timer_list s' ! k = (timer_list s ! k)\<lparr>running := False\<rparr>)
     \<and> (\<forall>k < length (timer_list s). \<not> is_running (timer_list s ! k) \<longrightarrow>
          callbacks_of k (trace s') = callbacks_of k (trace s))"
proof (induction s rule: step_all_loop.induct)
  case (1 s)
  show ?case
  proof (cases "running_timers s \<noteq> [] \<and> run_timeout (top (running_timers s)) < cur_time s")
    case True
    then have u: "step_all_loop s =
        (case step_all_body s of Inl err \<Rightarrow> Inl err | Inr s1 \<Rightarrow> step_all_loop s1)"
      by (subst step_all_loop_unfold) simp
    show ?thesis
    proof (cases "step_all_body s")
      case (Inl err)
      with u "1.prems" have "state_after (Inl err) = Some s'" by simp
      moreover from Inl have "err = bad_function_call s \<or> err = undefined_behaviour"
        using step_all_body_Inl by blast
      ultimately have "s' = s" by auto
      then show ?thesis by simp
    next
      case (Inr s1)
      with u "1.prems" have l: "state_after (step_all_loop s1) = Some s'" by simp
      note ih = "1.IH" [OF True Inr l]
      note bs = step_all_body_Inr [OF Inr]
      have "set (running_timers s1) \<subseteq> set (running_timers s)"
        by (simp add: bs pop_def set_remove1_subset)
      with ih have sub: "set (running_timers s') \<subseteq> set (running_timers s)"
        by blast
      have stops: "\<forall>k < length (timer_list s).
          timer_list s' ! k = timer_list s ! k
          \<or> timer_list s' ! k = (timer_list s ! k)\<lparr>running := False\<rparr>"
      proof (intro allI impI)
        fix k assume k: "k < length (timer_list s)"
        from ih k bs have "timer_list s' ! k = timer_list s1 ! k
            \<or> timer_list s' ! k = (timer_list s1 ! k)\<lparr>running := False\<rparr>"
          by simp
        with step_all_body_stops_only [OF Inr k]
        show "timer_list s' ! k = timer_list s ! k
            \<or> timer_list s' ! k = (timer_list s ! k)\<lparr>running := False\<rparr>"
          by auto
      qed
      have quiet: "\<forall>k < length (timer_list s). \<not> is_running (timer_list s ! k) \<longrightarrow>
          callbacks_of k (trace s') = callbacks_of k (trace s)"
      proof (intro allI impI)
        fix k assume k: "k < length (timer_list s)" and n: "\<not> is_running (timer_list s ! k)"
        from step_all_body_slot [OF Inr k] n
        have "timer_list s1 ! k = timer_list s ! k"
          and t: "callbacks_of k (trace s1) = callbacks_of k (trace s)"
          by simp_all
        with n have "\<not> is_running (timer_list s1 ! k)" by simp
        with ih k bs have "callbacks_of k (trace s') = callbacks_of k (trace s1)" by simp
        with t show "callbacks_of k (trace s') = callbacks_of k (trace s)" by simp
      qed
      from ih bs sub stops quiet show ?thesis by simp
    qed
  next
    case False
    have "step_all_loop s = Inr s"
      by (subst step_all_loop_unfold) (simp add: False)
    with "1.prems" have "s' = s" by simp
    then show ?thesis by simp
  qed
qed

lemma step_all_loop_defined:
  "events_in_range s \<Longrightarrow> \<exists>s'. state_after (step_all_loop s) = Some s'"
proof (induction s rule: step_all_loop.induct)
  case (1 s)
  show ?case
  proof (cases "running_timers s \<noteq> [] \<and> run_timeout (top (running_timers s)) < cur_time s")
    case True
    then have u: "step_all_loop s =
        (case step_all_body s of Inl err \<Rightarrow> Inl err | Inr s1 \<Rightarrow> step_all_loop s1)"
      by (subst step_all_loop_unfold) simp
    from "1.prems" True have r: "run_timer_id (top (running_timers s)) < length (timer_list s)"
      using top_in_set [of "running_timers s"] by (auto simp: events_in_range_def list_all_iff)
    show ?thesis
    proof (cases "step_all_body s")
      case (Inl err)
      with r have "err = bad_function_call s"
        using step_all_body_Inl by blast
      with u Inl show ?thesis by simp
    next
      case (Inr s1)
      from "1.IH" [OF True Inr] step_all_body_keeps(1) [OF Inr "1.prems"]
      show ?thesis by (simp add: u Inr)
    qed
  next
    case False
    have "step_all_loop s = Inr s"
      by (subst step_all_loop_unfold) (simp add: False)
    then show ?thesis by simp
  qed
qed

subsection \<open>Arithmetic of the clock\<close>

lemma unat_add_no_wrap:
  fixes a b :: uint32_t
  shows "unat a + unat b < 2 ^ 32 \<Longrightarrow> unat (a + b) = unat a + unat b"
  using unat_add_lem [of a b] by simp

lemma unat_of_nat_32: "n < 2 ^ 32 \<Longrightarrow> unat (of_nat n :: uint32_t) = n"
  by (simp add: unat_of_nat take_bit_nat_eq_self)

lemma unat_add_of_nat:
  fixes a :: uint32_t
  shows "unat a + n < 2 ^ 32 \<Longrightarrow> unat (a + of_nat n) = unat a + n"
  by (simp add: unat_add_no_wrap unat_of_nat_32)

lemma unat_add_1:
  fixes a :: uint32_t
  shows "unat a + 1 < 2 ^ 32 \<Longrightarrow> unat (a + 1) = unat a + 1"
  using unat_add_no_wrap [of a 1] by simp

subsection \<open>One call of step_all, and several\<close>

lemma step_all_Inr:
  assumes "step_all s = Inr s'"
  shows "cur_time s' = cur_time s + 1"
    and "length (timer_list s') = length (timer_list s)"
    and "running_timers s' = filter (\<lambda>e. cur_time s + 1 \<le> run_timeout e) (running_timers s)"
    and "\<forall>k < length (timer_list s).
          timer_list s' ! k = timer_list s ! k
          \<or> timer_list s' ! k = (timer_list s ! k)\<lparr>running := False\<rparr>"
  using step_all_loop_Inr [of "s\<lparr>cur_time := cur_time s + 1\<rparr>" s'] assms
  by (simp_all add: step_all_def)

lemma step_all_slot:
  assumes "step_all s = Inr s'" and "i < length (timer_list s)"
  shows "if due i (s\<lparr>cur_time := cur_time s + 1\<rparr>)
      then timer_list s' ! i = (timer_list s ! i)\<lparr>running := False\<rparr>
         \<and> (\<exists>c. callback (timer_list s ! i) = Some c
              \<and> callbacks_of i (trace s') = callbacks_of i (trace s) @ [Callback_called c i])
      else timer_list s' ! i = timer_list s ! i
         \<and> callbacks_of i (trace s') = callbacks_of i (trace s)"
  using step_all_loop_slot [of "s\<lparr>cur_time := cur_time s + 1\<rparr>" s' i] assms
  by (simp add: step_all_def cong: if_cong)

lemma step_all_total:
  assumes "events_in_range s" and "callbacks_set s"
  shows "\<exists>s'. step_all s = Inr s' \<and> events_in_range s' \<and> callbacks_set s'"
proof -
  have "events_in_range (s\<lparr>cur_time := cur_time s + 1\<rparr>)"
    and "callbacks_set (s\<lparr>cur_time := cur_time s + 1\<rparr>)"
    using assms by (simp_all add: events_in_range_def callbacks_set_def)
  then obtain s' where r: "step_all s = Inr s'"
    using step_all_loop_total by (auto simp: step_all_def)
  note f = step_all_Inr [OF r]
  have "set (running_timers s') \<subseteq> set (running_timers s)"
    by (auto simp: f(3))
  with assms(1) have "events_in_range s'"
    using f(2) by (rule events_in_range_subset)
  moreover from assms(2) f(2) f(4) have "callbacks_set s'"
    by (rule callbacks_set_stops_only)
  ultimately show ?thesis using r by blast
qed

lemma step_all_after:
  assumes "state_after (step_all s) = Some s'"
  shows "length (timer_list s') = length (timer_list s)"
    and "set (running_timers s') \<subseteq> set (running_timers s)"
    and "\<forall>k < length (timer_list s).
          timer_list s' ! k = timer_list s ! k
          \<or> timer_list s' ! k = (timer_list s ! k)\<lparr>running := False\<rparr>"
    and "\<forall>k < length (timer_list s). \<not> is_running (timer_list s ! k) \<longrightarrow>
          callbacks_of k (trace s') = callbacks_of k (trace s)"
  using step_all_loop_after [of "s\<lparr>cur_time := cur_time s + 1\<rparr>" s'] assms
  by (simp_all add: step_all_def)

lemma step_all_defined:
  assumes "events_in_range s"
  shows "\<exists>s'. state_after (step_all s) = Some s'"
proof -
  have "events_in_range (s\<lparr>cur_time := cur_time s + 1\<rparr>)"
    using assms by (simp add: events_in_range_def)
  then show ?thesis
    unfolding step_all_def by (rule step_all_loop_defined)
qed

lemma step_all_times_Suc:
  "step_all_times (Suc n) s =
     (case step_all_times n s of Inl err \<Rightarrow> Inl err | Inr s1 \<Rightarrow> step_all s1)"
proof (induction n arbitrary: s)
  case 0
  show ?case by (simp split: sum.split)
next
  case (Suc n)
  show ?case
  proof (cases "step_all s")
    case (Inl err)
    then show ?thesis by simp
  next
    case (Inr s1)
    have "step_all_times (Suc (Suc n)) s = step_all_times (Suc n) s1"
      using Inr by simp
    also have "\<dots> = (case step_all_times n s1 of Inl err \<Rightarrow> Inl err | Inr s2 \<Rightarrow> step_all s2)"
      by (rule Suc.IH)
    also have "step_all_times n s1 = step_all_times (Suc n) s"
      using Inr by simp
    finally show ?thesis .
  qed
qed

text \<open>
  One call or more that all return, with no wrap of the clock: the clock has advanced
  by their number and the queue holds exactly the events that are not yet overdue.
\<close>

lemma step_all_times_Inr:
  "step_all_times (Suc n) s = Inr s' \<Longrightarrow> unat (cur_time s) + Suc n < 2 ^ 32 \<Longrightarrow>
     cur_time s' = cur_time s + of_nat (Suc n)
     \<and> length (timer_list s') = length (timer_list s)
     \<and> running_timers s' =
         filter (\<lambda>e. cur_time s + of_nat (Suc n) \<le> run_timeout e) (running_timers s)"
proof (induction n arbitrary: s')
  case 0
  then have "step_all s = Inr s'"
    by (simp split: sum.splits)
  from step_all_Inr [OF this] show ?case by simp
next
  case (Suc n)
  from Suc.prems(1) obtain s1 where n: "step_all_times (Suc n) s = Inr s1"
    and l: "step_all s1 = Inr s'"
    unfolding step_all_times_Suc [of "Suc n"] by (cases "step_all_times (Suc n) s") simp_all
  from Suc.prems(2) have b: "unat (cur_time s) + Suc n < 2 ^ 32" by simp
  note ih = Suc.IH [OF n b]
  note f = step_all_Inr [OF l]
  have u1: "unat (cur_time s + of_nat (Suc n)) = unat (cur_time s) + Suc n"
    using b by (rule unat_add_of_nat)
  have u2: "unat (cur_time s + of_nat (Suc n) + 1) = unat (cur_time s) + Suc n + 1"
    using unat_add_1 [of "cur_time s + of_nat (Suc n)"] Suc.prems(2) u1 by simp
  have c: "cur_time s' = cur_time s + of_nat (Suc (Suc n))"
    using ih f by (simp add: add.assoc)
  have "filter (\<lambda>e. cur_time s1 + 1 \<le> run_timeout e) (running_timers s1) =
      filter (\<lambda>e. cur_time s + of_nat (Suc n) + 1 \<le> run_timeout e) (running_timers s)"
    using ih u1 u2 by (auto simp: word_le_nat_alt intro!: filter_cong)
  also have "cur_time s + of_nat (Suc n) + 1 = cur_time s + of_nat (Suc (Suc n))"
    by (simp add: add.assoc)
  finally show ?case
    using ih f c by simp
qed

text \<open>
  A slot that is not running stays so under any number of calls of \<^verbatim>\<open>step_all()\<close>, and
  its callback is not called, also when one of the calls throws.
\<close>

lemma step_all_times_quiet:
  "events_in_range s \<Longrightarrow> i < length (timer_list s) \<Longrightarrow> \<not> is_running (timer_list s ! i) \<Longrightarrow>
     \<exists>s'. state_after (step_all_times n s) = Some s'
       \<and> callbacks_of i (trace s') = callbacks_of i (trace s)
       \<and> \<not> is_running (timer_list s' ! i)"
proof (induction n arbitrary: s)
  case 0
  then show ?case by simp
next
  case (Suc n)
  from step_all_defined [OF Suc.prems(1)]
  obtain s1 where a: "state_after (step_all s) = Some s1" ..
  note f = step_all_after [OF a]
  from f(4) Suc.prems(2,3) have t: "callbacks_of i (trace s1) = callbacks_of i (trace s)"
    by simp
  from f(3) Suc.prems(2,3) have r: "\<not> is_running (timer_list s1 ! i)"
    by (auto simp: is_running_def)
  show ?case
  proof (cases "step_all s")
    case (Inl err)
    with a t r show ?thesis by simp
  next
    case (Inr s2)
    with a have "s2 = s1" by simp
    with Inr have st: "step_all_times (Suc n) s = step_all_times n s1" by simp
    have "events_in_range s1"
      using Suc.prems(1) f(2) f(1) by (rule events_in_range_subset)
    moreover have "i < length (timer_list s1)"
      using Suc.prems(2) f(1) by simp
    ultimately show ?thesis
      using Suc.IH [of s1] r t st by simp
  qed
qed

text \<open>
  What calls of \<^verbatim>\<open>step_all()\<close> add to the trace: calls of callbacks of slots that were
  running, and nothing else.
\<close>

lemma step_all_body_trace:
  assumes "step_all_body s = Inr s1"
  shows "\<exists>evs. trace s1 = trace s @ evs
      \<and> (\<forall>e \<in> set evs. \<exists>c j. e = Callback_called c j
            \<and> j < length (timer_list s) \<and> is_running (timer_list s ! j))"
  using assms
  by (auto simp: step_all_body_def trigger_cases Let_def split: if_splits option.splits)

lemma step_all_loop_trace:
  "state_after (step_all_loop s) = Some s' \<Longrightarrow>
     \<exists>evs. trace s' = trace s @ evs
      \<and> (\<forall>e \<in> set evs. \<exists>c j. e = Callback_called c j
            \<and> j < length (timer_list s) \<and> is_running (timer_list s ! j))"
proof (induction s rule: step_all_loop.induct)
  case (1 s)
  show ?case
  proof (cases "running_timers s \<noteq> [] \<and> run_timeout (top (running_timers s)) < cur_time s")
    case True
    then have u: "step_all_loop s =
        (case step_all_body s of Inl err \<Rightarrow> Inl err | Inr s1 \<Rightarrow> step_all_loop s1)"
      by (subst step_all_loop_unfold) simp
    show ?thesis
    proof (cases "step_all_body s")
      case (Inl err)
      with u "1.prems" have "state_after (Inl err) = Some s'" by simp
      moreover from Inl have "err = bad_function_call s \<or> err = undefined_behaviour"
        using step_all_body_Inl by blast
      ultimately have "s' = s" by auto
      then show ?thesis by simp
    next
      case (Inr s1)
      with u "1.prems" have l: "state_after (step_all_loop s1) = Some s'" by simp
      from "1.IH" [OF True Inr l] obtain evs2 where t2: "trace s' = trace s1 @ evs2"
        and e2: "\<forall>e \<in> set evs2. \<exists>c j. e = Callback_called c j
            \<and> j < length (timer_list s1) \<and> is_running (timer_list s1 ! j)"
        by blast
      from step_all_body_trace [OF Inr] obtain evs1 where t1: "trace s1 = trace s @ evs1"
        and e1: "\<forall>e \<in> set evs1. \<exists>c j. e = Callback_called c j
            \<and> j < length (timer_list s) \<and> is_running (timer_list s ! j)"
        by blast
      note bs = step_all_body_Inr [OF Inr]
      have "\<forall>e \<in> set evs2. \<exists>c j. e = Callback_called c j
            \<and> j < length (timer_list s) \<and> is_running (timer_list s ! j)"
      proof
        fix e assume "e \<in> set evs2"
        with e2 obtain c j where e: "e = Callback_called c j" and j: "j < length (timer_list s1)"
          and r: "is_running (timer_list s1 ! j)"
          by blast
        from j bs have j': "j < length (timer_list s)" by simp
        with step_all_body_stops_only [OF Inr j'] r have "is_running (timer_list s ! j)"
          by (auto simp: is_running_def)
        with e j' show "\<exists>c j. e = Callback_called c j
            \<and> j < length (timer_list s) \<and> is_running (timer_list s ! j)"
          by blast
      qed
      with e1 have "\<forall>e \<in> set (evs1 @ evs2). \<exists>c j. e = Callback_called c j
            \<and> j < length (timer_list s) \<and> is_running (timer_list s ! j)"
        by auto
      moreover have "trace s' = trace s @ (evs1 @ evs2)"
        by (simp add: t1 t2)
      ultimately show ?thesis by blast
    qed
  next
    case False
    have "step_all_loop s = Inr s"
      by (subst step_all_loop_unfold) (simp add: False)
    with "1.prems" have "s' = s" by simp
    then show ?thesis by simp
  qed
qed

lemma step_all_times_trace:
  "events_in_range s \<Longrightarrow> state_after (step_all_times n s) = Some s' \<Longrightarrow>
     \<exists>evs. trace s' = trace s @ evs
      \<and> (\<forall>e \<in> set evs. \<exists>c j. e = Callback_called c j
            \<and> j < length (timer_list s) \<and> is_running (timer_list s ! j))"
proof (induction n arbitrary: s)
  case 0
  then show ?case by simp
next
  case (Suc n)
  from step_all_defined [OF Suc.prems(1)]
  obtain s1 where a: "state_after (step_all s) = Some s1" ..
  note f = step_all_after [OF a]
  from a have "state_after (step_all_loop (s\<lparr>cur_time := cur_time s + 1\<rparr>)) = Some s1"
    by (simp add: step_all_def)
  from step_all_loop_trace [OF this] obtain evs1 where t1: "trace s1 = trace s @ evs1"
    and e1: "\<forall>e \<in> set evs1. \<exists>c j. e = Callback_called c j
            \<and> j < length (timer_list s) \<and> is_running (timer_list s ! j)"
    by auto
  show ?case
  proof (cases "step_all s")
    case (Inl err)
    with a Suc.prems(2) have "s' = s1" by simp
    with t1 e1 show ?thesis by blast
  next
    case (Inr s2)
    with a have "s2 = s1" by simp
    with Inr Suc.prems(2) have st: "state_after (step_all_times n s1) = Some s'" by simp
    have "events_in_range s1"
      using Suc.prems(1) f(2) f(1) by (rule events_in_range_subset)
    from Suc.IH [OF this st] obtain evs2 where t2: "trace s' = trace s1 @ evs2"
      and e2: "\<forall>e \<in> set evs2. \<exists>c j. e = Callback_called c j
            \<and> j < length (timer_list s1) \<and> is_running (timer_list s1 ! j)"
      by blast
    have "\<forall>e \<in> set evs2. \<exists>c j. e = Callback_called c j
            \<and> j < length (timer_list s) \<and> is_running (timer_list s ! j)"
    proof
      fix e assume "e \<in> set evs2"
      with e2 obtain c j where e: "e = Callback_called c j" and j: "j < length (timer_list s1)"
        and r: "is_running (timer_list s1 ! j)"
        by blast
      from j f(1) have j': "j < length (timer_list s)" by simp
      with f(3) r have "is_running (timer_list s ! j)"
        by (auto simp: is_running_def)
      with e j' show "\<exists>c j. e = Callback_called c j
            \<and> j < length (timer_list s) \<and> is_running (timer_list s ! j)"
        by blast
    qed
    with e1 have "\<forall>e \<in> set (evs1 @ evs2). \<exists>c j. e = Callback_called c j
            \<and> j < length (timer_list s) \<and> is_running (timer_list s ! j)"
      by auto
    moreover have "trace s' = trace s @ (evs1 @ evs2)"
      by (simp add: t1 t2)
    ultimately show ?thesis by blast
  qed
qed

lemma armed_service_conditions:
  "events_in_range armed_service" "callbacks_set armed_service"
  "parent (unique_timer_ctor 0)" "timer_id (unique_timer_ctor 0) < length (timer_list armed_service)"
  "active (timer_list armed_service ! timer_id (unique_timer_ctor 0))"
  "callback (timer_list armed_service ! timer_id (unique_timer_ctor 0)) = Some 1"
  "cur_time armed_service = 0" "trace armed_service = []"
  by (simp_all add: armed_service_eq events_in_range_def callbacks_set_def unique_timer_ctor_def)

subsection \<open>Stopping and setting a running timer\<close>

text \<open>
  C3.  Take a handle that points to a slot, on a service whose events are in range,
  and call \<^verbatim>\<open>stop()\<close> on it, or \<^verbatim>\<open>set()\<close> with or without a callback.  Then, whatever
  the number \<open>n\<close> of calls of \<^verbatim>\<open>step_all()\<close> that follow, and also when one of them throws
  for another slot, the callback of the slot has not been called: all that the calls
  add to the trace is calls of callbacks of other slots, so nothing is logged, and the
  slot is not running.  When the \<open>n \<ge> 1\<close> calls return and the clock does not wrap, the
  queue is left with exactly the events whose timeout the clock has not passed: every
  event with an earlier timeout, the stale event of the stopped run among them once
  the clock is past its tick, has been popped.
\<close>

theorem stop_or_set_cancels_pending_fire:
  assumes "events_in_range s" and "parent h" and "timer_id h < length (timer_list s)"
    and "unique_timer_stop h s = Inr s1 \<or> unique_timer_set h d s = Inr s1
      \<or> unique_timer_set_callback h d c s = Inr s1"
  shows "(\<exists>s' evs. state_after (step_all_times n s1) = Some s'
        \<and> trace s' = trace s1 @ evs
        \<and> (\<forall>e \<in> set evs. \<exists>c j. e = Callback_called c j \<and> j \<noteq> timer_id h)
        \<and> callbacks_of (timer_id h) (trace s') = callbacks_of (timer_id h) (trace s)
        \<and> \<not> is_running (timer_list s' ! timer_id h))
    \<and> (\<forall>s'. step_all_times n s1 = Inr s' \<and> 0 < n \<and> unat (cur_time s) + n < 2 ^ 32 \<longrightarrow>
        cur_time s' = cur_time s + of_nat n
        \<and> running_timers s' =
            filter (\<lambda>e. cur_time s + of_nat n \<le> run_timeout e) (running_timers s)
        \<and> (\<forall>e \<in> set (running_timers s). run_timeout e < cur_time s + of_nat n \<longrightarrow>
              e \<notin> set (running_timers s')))"
proof -
  let ?i = "timer_id h"
  from assms(2-4)
  have q: "running_timers s1 = running_timers s" and l: "length (timer_list s1) = length (timer_list s)"
    and ct: "cur_time s1 = cur_time s"
    and t: "callbacks_of ?i (trace s1) = callbacks_of ?i (trace s)"
    and r: "\<not> is_running (timer_list s1 ! ?i)"
    by (auto simp: unique_timer_stop_def unique_timer_set_def unique_timer_set_callback_def
        impl_def timer_impl_set_def timer_impl_set_callback_def callbacks_of_def is_running_def
        Let_def split: if_splits)
  from assms(1) q l have e: "events_in_range s1"
    by (simp add: events_in_range_def)
  from step_all_times_quiet [OF e, of ?i n] assms(3) l r t
  obtain s' where a: "state_after (step_all_times n s1) = Some s'"
    and t': "callbacks_of ?i (trace s') = callbacks_of ?i (trace s)"
    and r': "\<not> is_running (timer_list s' ! ?i)"
    by auto
  from step_all_times_trace [OF e a] obtain evs where tr: "trace s' = trace s1 @ evs"
    and ev: "\<forall>e \<in> set evs. \<exists>c j. e = Callback_called c j
            \<and> j < length (timer_list s1) \<and> is_running (timer_list s1 ! j)"
    by blast
  from ev r have "\<forall>e \<in> set evs. \<exists>c j. e = Callback_called c j \<and> j \<noteq> ?i"
    by blast
  with a t' r' tr
  have first: "\<exists>s' evs. state_after (step_all_times n s1) = Some s'
        \<and> trace s' = trace s1 @ evs
        \<and> (\<forall>e \<in> set evs. \<exists>c j. e = Callback_called c j \<and> j \<noteq> ?i)
        \<and> callbacks_of ?i (trace s') = callbacks_of ?i (trace s)
        \<and> \<not> is_running (timer_list s' ! ?i)"
    by blast
  have "\<forall>s'. step_all_times n s1 = Inr s' \<and> 0 < n \<and> unat (cur_time s) + n < 2 ^ 32 \<longrightarrow>
        cur_time s' = cur_time s + of_nat n
        \<and> running_timers s' =
            filter (\<lambda>e. cur_time s + of_nat n \<le> run_timeout e) (running_timers s)
        \<and> (\<forall>e \<in> set (running_timers s). run_timeout e < cur_time s + of_nat n \<longrightarrow>
              e \<notin> set (running_timers s'))"
  proof (intro allI impI)
    fix s' assume a: "step_all_times n s1 = Inr s' \<and> 0 < n \<and> unat (cur_time s) + n < 2 ^ 32"
    then obtain m where m: "n = Suc m" by (cases n) simp_all
    from step_all_times_Inr [of m s1 s'] a
    have "cur_time s' = cur_time s + of_nat n
        \<and> running_timers s' =
            filter (\<lambda>e. cur_time s + of_nat n \<le> run_timeout e) (running_timers s)"
      unfolding m ct q by simp
    then show "cur_time s' = cur_time s + of_nat n
        \<and> running_timers s' =
            filter (\<lambda>e. cur_time s + of_nat n \<le> run_timeout e) (running_timers s)
        \<and> (\<forall>e \<in> set (running_timers s). run_timeout e < cur_time s + of_nat n \<longrightarrow>
              e \<notin> set (running_timers s'))"
      by (simp add: not_le)
  qed
  with first show ?thesis ..
qed

text \<open>
  C3 on \<open>armed_service\<close>, whose timer runs with timeout 5: after \<^verbatim>\<open>stop()\<close> and six calls
  of \<^verbatim>\<open>step_all()\<close> the clock is at 6, the trace is empty and the event is gone.
\<close>

theorem stop_or_set_cancels_pending_fire_witness:
  "events_in_range armed_service \<and> parent (unique_timer_ctor 0)
   \<and> timer_id (unique_timer_ctor 0) < length (timer_list armed_service)
   \<and> is_running (timer_list armed_service ! 0)
   \<and> unique_timer_stop (unique_timer_ctor 0) armed_service =
       Inr \<lparr>timer_list = [\<lparr>duration = 5, timeout = 5, running = False, active = True, callback = Some 1\<rparr>],
            running_timers = [\<lparr>run_timer_id = 0, run_timeout = 5\<rparr>], cur_time = 0, trace = []\<rparr>
   \<and> step_all_times 6
        \<lparr>timer_list = [\<lparr>duration = 5, timeout = 5, running = False, active = True, callback = Some 1\<rparr>],
         running_timers = [\<lparr>run_timer_id = 0, run_timeout = 5\<rparr>], cur_time = 0, trace = []\<rparr> =
       Inr \<lparr>timer_list = [\<lparr>duration = 5, timeout = 5, running = False, active = True, callback = Some 1\<rparr>],
            running_timers = [], cur_time = 6, trace = []\<rparr>
   \<and> (0 :: nat) < 6 \<and> unat (cur_time armed_service) + 6 < 2 ^ 32
   \<and> (\<exists>s'. state_after (step_all_times 6
        \<lparr>timer_list = [\<lparr>duration = 5, timeout = 5, running = False, active = True, callback = Some 1\<rparr>],
         running_timers = [\<lparr>run_timer_id = 0, run_timeout = 5\<rparr>], cur_time = 0, trace = []\<rparr>) = Some s'
        \<and> callbacks_of 0 (trace s') = []
        \<and> \<not> is_running (timer_list s' ! 0))
   \<and> \<lparr>run_timer_id = 0, run_timeout = 5\<rparr> \<in> set (running_timers armed_service)
   \<and> run_timeout \<lparr>run_timer_id = 0, run_timeout = 5\<rparr> < cur_time armed_service + of_nat 6
   \<and> \<lparr>run_timer_id = 0, run_timeout = 5\<rparr> \<notin> set (running_timers
        \<lparr>timer_list = [\<lparr>duration = 5, timeout = 5, running = False, active = True, callback = Some 1\<rparr>],
         running_timers = [], cur_time = 6, trace = []\<rparr>)"
proof -
  let ?s1 = "\<lparr>timer_list = [\<lparr>duration = 5, timeout = 5, running = False, active = True, callback = Some 1\<rparr>],
            running_timers = [\<lparr>run_timer_id = 0, run_timeout = 5\<rparr>], cur_time = 0, trace = []\<rparr>"
  have st: "unique_timer_stop (unique_timer_ctor 0) armed_service = Inr ?s1"
    by (simp add: armed_service_eq unique_timer_stop_def impl_def unique_timer_ctor_def)
  have six: "step_all_times 6 ?s1 =
       Inr \<lparr>timer_list = [\<lparr>duration = 5, timeout = 5, running = False, active = True, callback = Some 1\<rparr>],
            running_timers = [], cur_time = 6, trace = []\<rparr>"
    by code_simp
  have run: "is_running (timer_list armed_service ! 0)"
    by (simp add: armed_service_eq is_running_def)
  note th = stop_or_set_cancels_pending_fire
    [OF armed_service_conditions(1,3,4), of ?s1 0 None 6, THEN conjunct1]
  have "\<exists>s'. state_after (step_all_times 6 ?s1) = Some s'
        \<and> callbacks_of 0 (trace s') = []
        \<and> \<not> is_running (timer_list s' ! 0)"
    using th st by (auto simp: armed_service_conditions unique_timer_ctor_def callbacks_of_def)
  moreover have m: "\<lparr>run_timer_id = 0, run_timeout = 5\<rparr> \<in> set (running_timers armed_service)"
    and lt: "run_timeout \<lparr>run_timer_id = 0, run_timeout = 5\<rparr> < cur_time armed_service + of_nat 6"
    by (simp_all add: armed_service_eq)
  moreover have "\<lparr>run_timer_id = 0, run_timeout = 5\<rparr> \<notin> set (running_timers
        \<lparr>timer_list = [\<lparr>duration = 5, timeout = 5, running = False, active = True, callback = Some 1\<rparr>],
         running_timers = [], cur_time = 6, trace = []\<rparr>)"
    using stop_or_set_cancels_pending_fire
      [OF armed_service_conditions(1,3,4), of ?s1 0 None 6, THEN conjunct2, rule_format,
        THEN conjunct2, THEN conjunct2, rule_format, OF _ _ m lt]
      st six armed_service_conditions(7)
    by simp
  ultimately show ?thesis
    using st six run armed_service_conditions by simp
qed

subsection \<open>Running a timer to its expiry\<close>

text \<open>After \<^verbatim>\<open>set(D)\<close> and \<^verbatim>\<open>run()\<close> on an active slot.\<close>

lemma set_then_run:
  assumes "parent h" and "timer_id h < length (timer_list s)"
    and "active (timer_list s ! timer_id h)"
  shows "\<exists>s1. unique_timer_set h D s = Inr s1
      \<and> unique_timer_run h s1 =
          Inr (s\<lparr>timer_list := (timer_list s)
                   [timer_id h := (timer_list s ! timer_id h)
                      \<lparr>duration := D, timeout := cur_time s + D, running := True\<rparr>],
                 running_timers :=
                   \<lparr>run_timer_id = timer_id h, run_timeout = cur_time s + D\<rparr> # running_timers s\<rparr>)"
  using assms
  by (simp add: unique_timer_set_def unique_timer_run_def impl_def timer_impl_set_def
      timer_impl_run_def emplace_def Let_def)

text \<open>
  While the clock has not passed the timeout of a running slot, calls of \<^verbatim>\<open>step_all()\<close>
  return, leave the slot and its event alone and do not call its callback.
\<close>

lemma step_all_times_before_timeout:
  assumes "events_in_range s" and "callbacks_set s" and "i < length (timer_list s)"
    and "\<lparr>run_timer_id = i, run_timeout = timeout (timer_list s ! i)\<rparr> \<in> set (running_timers s)"
    and "unat (cur_time s) + k \<le> unat (timeout (timer_list s ! i))"
  shows "\<exists>s'. step_all_times k s = Inr s'
      \<and> events_in_range s' \<and> callbacks_set s'
      \<and> length (timer_list s') = length (timer_list s)
      \<and> cur_time s' = cur_time s + of_nat k
      \<and> timer_list s' ! i = timer_list s ! i
      \<and> \<lparr>run_timer_id = i, run_timeout = timeout (timer_list s ! i)\<rparr> \<in> set (running_timers s')
      \<and> callbacks_of i (trace s') = callbacks_of i (trace s)"
  using assms(5)
proof (induction k)
  case 0
  with assms show ?case by simp
next
  case (Suc k)
  let ?x = "\<lparr>run_timer_id = i, run_timeout = timeout (timer_list s ! i)\<rparr>"
  from Suc obtain s1 where n: "step_all_times k s = Inr s1"
    and e: "events_in_range s1" and c: "callbacks_set s1"
    and l: "length (timer_list s1) = length (timer_list s)"
    and ct: "cur_time s1 = cur_time s + of_nat k"
    and sl: "timer_list s1 ! i = timer_list s ! i"
    and x: "?x \<in> set (running_timers s1)"
    and tr: "callbacks_of i (trace s1) = callbacks_of i (trace s)"
    by auto
  from step_all_total [OF e c] obtain s' where st: "step_all s1 = Inr s'"
    and e': "events_in_range s'" and c': "callbacks_set s'"
    by blast
  note f = step_all_Inr [OF st]
  have lt: "unat (timeout (timer_list s ! i)) < 2 ^ 32"
    using unsigned_less [of "timeout (timer_list s ! i)", where ?'a = nat] by simp
  with Suc.prems have "unat (cur_time s) + Suc k < 2 ^ 32" by simp
  then have u: "unat (cur_time s + of_nat (Suc k)) = unat (cur_time s) + Suc k"
    by (rule unat_add_of_nat)
  have ct': "cur_time s1 + 1 = cur_time s + of_nat (Suc k)"
    by (simp add: ct add.assoc)
  have le: "cur_time s1 + 1 \<le> timeout (timer_list s ! i)"
    unfolding ct' using u Suc.prems by (simp add: word_le_nat_alt)
  then have "\<not> due i (s1\<lparr>cur_time := cur_time s1 + 1\<rparr>)"
    by (simp add: due_def sl not_less)
  with step_all_slot [OF st, of i] l assms(3)
  have sl': "timer_list s' ! i = timer_list s1 ! i"
    and tr': "callbacks_of i (trace s') = callbacks_of i (trace s1)"
    by simp_all
  have x': "?x \<in> set (running_timers s')"
    using x le by (simp add: f(3))
  have "step_all_times (Suc k) s = Inr s'"
    unfolding step_all_times_Suc by (simp add: n st)
  with e' c' f(1,2) l ct' sl sl' x' tr tr' show ?case
    by simp
qed

text \<open>
  C2, as stated, at \<open>D = 0\<close> and \<open>T = 0\<close>: on a new service, \<^verbatim>\<open>set(5, cb1)\<close>, \<^verbatim>\<open>set(0)\<close> and
  \<^verbatim>\<open>run()\<close> at clock 0 give the slot the timeout 0; the next \<^verbatim>\<open>step_all()\<close> pops its
  event and calls nothing, since \<^verbatim>\<open>is_running()\<close> asks for a timeout above 0.
\<close>

theorem zero_duration_counterexample:
  "fst (get_unique_timer timers2_ctor) = unique_timer_ctor 0
   \<and> unique_timer_set_callback (unique_timer_ctor 0) 5 (Some 1) (snd (get_unique_timer timers2_ctor)) =
       Inr \<lparr>timer_list = [\<lparr>duration = 5, timeout = 0, running = False, active = True, callback = Some 1\<rparr>],
            running_timers = [], cur_time = 0, trace = []\<rparr>
   \<and> unique_timer_set (unique_timer_ctor 0) 0
        \<lparr>timer_list = [\<lparr>duration = 5, timeout = 0, running = False, active = True, callback = Some 1\<rparr>],
         running_timers = [], cur_time = 0, trace = []\<rparr> =
       Inr \<lparr>timer_list = [\<lparr>duration = 0, timeout = 0, running = False, active = True, callback = Some 1\<rparr>],
            running_timers = [], cur_time = 0, trace = []\<rparr>
   \<and> unique_timer_run (unique_timer_ctor 0)
        \<lparr>timer_list = [\<lparr>duration = 0, timeout = 0, running = False, active = True, callback = Some 1\<rparr>],
         running_timers = [], cur_time = 0, trace = []\<rparr> =
       Inr \<lparr>timer_list = [\<lparr>duration = 0, timeout = 0, running = True, active = True, callback = Some 1\<rparr>],
            running_timers = [\<lparr>run_timer_id = 0, run_timeout = 0\<rparr>], cur_time = 0, trace = []\<rparr>
   \<and> step_all_times 1
        \<lparr>timer_list = [\<lparr>duration = 0, timeout = 0, running = True, active = True, callback = Some 1\<rparr>],
         running_timers = [\<lparr>run_timer_id = 0, run_timeout = 0\<rparr>], cur_time = 0, trace = []\<rparr> =
       Inr \<lparr>timer_list = [\<lparr>duration = 0, timeout = 0, running = True, active = True, callback = Some 1\<rparr>],
            running_timers = [], cur_time = 1, trace = []\<rparr>"
proof (intro conjI)
  show "fst (get_unique_timer timers2_ctor) = unique_timer_ctor 0"
    by (simp add: get_unique_timer_fresh unique_timer_ctor_def)
qed code_simp+

text \<open>
  C2, amended.  On a service whose events are in range and whose running slots have
  callbacks, take a handle to an active slot with callback \<open>c\<close>, at the clock \<open>T\<close>, and a
  duration \<open>D\<close> with \<open>0 < T + D\<close> and \<open>T + D + 1 < 2^32\<close>.  After \<^verbatim>\<open>set(D)\<close> and \<^verbatim>\<open>run()\<close>,
  any number \<open>k \<le> D\<close> of calls of \<^verbatim>\<open>step_all()\<close> returns with the clock at \<open>T + k\<close>, the
  slot still running and no further call of its callback; the call after the \<open>D\<close>-th
  returns with the clock at \<open>T + D + 1\<close> and exactly one further call of the callback,
  and leaves the slot expired.
\<close>

theorem heap_timer_fires_after_duration:
  assumes "events_in_range s" and "callbacks_set s"
    and "parent h" and "timer_id h < length (timer_list s)"
    and "active (timer_list s ! timer_id h)"
    and "callback (timer_list s ! timer_id h) = Some c"
    and "0 < unat (cur_time s) + unat D" and "unat (cur_time s) + unat D + 1 < 2 ^ 32"
  shows "\<exists>s1 s2. unique_timer_set h D s = Inr s1 \<and> unique_timer_run h s1 = Inr s2
      \<and> (\<forall>k \<le> unat D. \<exists>s3. step_all_times k s2 = Inr s3
            \<and> cur_time s3 = cur_time s + of_nat k
            \<and> callbacks_of (timer_id h) (trace s3) = callbacks_of (timer_id h) (trace s)
            \<and> is_running (timer_list s3 ! timer_id h))
      \<and> (\<exists>s4. step_all_times (Suc (unat D)) s2 = Inr s4
            \<and> cur_time s4 = cur_time s + D + 1
            \<and> callbacks_of (timer_id h) (trace s4) =
                callbacks_of (timer_id h) (trace s) @ [Callback_called c (timer_id h)]
            \<and> \<not> is_running (timer_list s4 ! timer_id h)
            \<and> is_expired (timer_list s4 ! timer_id h))"
proof -
  let ?i = "timer_id h"
  let ?t = "(timer_list s ! ?i)\<lparr>duration := D, timeout := cur_time s + D, running := True\<rparr>"
  let ?x = "\<lparr>run_timer_id = ?i, run_timeout = cur_time s + D\<rparr>"
  define s2 where "s2 = s\<lparr>timer_list := (timer_list s)[?i := ?t],
    running_timers := ?x # running_timers s\<rparr>"
  from set_then_run [OF assms(3-5), of D]
  obtain s1 where s1: "unique_timer_set h D s = Inr s1" and r: "unique_timer_run h s1 = Inr s2"
    unfolding s2_def by blast
  have sl: "timer_list s2 ! ?i = ?t" and l: "length (timer_list s2) = length (timer_list s)"
    and ct: "cur_time s2 = cur_time s" and tr: "trace s2 = trace s"
    and x: "\<lparr>run_timer_id = ?i, run_timeout = timeout (timer_list s2 ! ?i)\<rparr> \<in> set (running_timers s2)"
    using assms(4) by (simp_all add: s2_def)
  have e: "events_in_range s2"
    using assms(1,4) by (simp add: s2_def events_in_range_def)
  have c: "callbacks_set s2"
    unfolding callbacks_set_def list_all_length
  proof (intro allI impI)
    fix k assume "k < length (timer_list s2)"
    with assms(2,6) l show "\<not> is_running (timer_list s2 ! k) \<or> callback (timer_list s2 ! k) \<noteq> None"
      by (cases "k = ?i") (simp_all add: s2_def callbacks_set_def list_all_length)
  qed
  have to: "unat (timeout (timer_list s2 ! ?i)) = unat (cur_time s) + unat D"
    using assms(8) by (simp add: sl unat_add_no_wrap)
  have i2: "?i < length (timer_list s2)"
    using assms(4) l by simp
  have pos: "0 < timeout (timer_list s2 ! ?i)"
    using to assms(7) by (simp add: word_less_nat_alt)
  have before: "\<forall>k \<le> unat D. \<exists>s3. step_all_times k s2 = Inr s3
            \<and> cur_time s3 = cur_time s + of_nat k
            \<and> callbacks_of ?i (trace s3) = callbacks_of ?i (trace s)
            \<and> is_running (timer_list s3 ! ?i)"
  proof (intro allI impI)
    fix k assume "k \<le> unat D"
    then have "unat (cur_time s2) + k \<le> unat (timeout (timer_list s2 ! ?i))"
      by (simp add: to ct)
    from step_all_times_before_timeout [OF e c i2 x this]
    obtain s3 where "step_all_times k s2 = Inr s3" and "cur_time s3 = cur_time s2 + of_nat k"
      and "timer_list s3 ! ?i = timer_list s2 ! ?i"
      and "callbacks_of ?i (trace s3) = callbacks_of ?i (trace s2)"
      by blast
    moreover have "is_running (timer_list s2 ! ?i)"
      using pos assms(5) by (simp add: is_running_def sl)
    ultimately show "\<exists>s3. step_all_times k s2 = Inr s3
            \<and> cur_time s3 = cur_time s + of_nat k
            \<and> callbacks_of ?i (trace s3) = callbacks_of ?i (trace s)
            \<and> is_running (timer_list s3 ! ?i)"
      by (simp add: ct tr)
  qed
  have "unat (cur_time s2) + unat D \<le> unat (timeout (timer_list s2 ! ?i))"
    by (simp add: to ct)
  from step_all_times_before_timeout [OF e c i2 x this]
  obtain s3 where n: "step_all_times (unat D) s2 = Inr s3"
    and e3: "events_in_range s3" and c3: "callbacks_set s3"
    and l3: "length (timer_list s3) = length (timer_list s2)"
    and ct3: "cur_time s3 = cur_time s2 + of_nat (unat D)"
    and sl3: "timer_list s3 ! ?i = timer_list s2 ! ?i"
    and x3: "\<lparr>run_timer_id = ?i, run_timeout = timeout (timer_list s2 ! ?i)\<rparr> \<in> set (running_timers s3)"
    and tr3: "callbacks_of ?i (trace s3) = callbacks_of ?i (trace s2)"
    by blast
  from step_all_total [OF e3 c3] obtain s4 where st: "step_all s3 = Inr s4"
    by blast
  note f = step_all_Inr [OF st]
  have ct3': "cur_time s3 = cur_time s + D"
    by (simp add: ct3 ct)
  have "unat (cur_time s + D + 1) = unat (cur_time s) + unat D + 1"
    using unat_add_1 [of "cur_time s + D"] assms(8) by (simp add: unat_add_no_wrap)
  then have "timeout (timer_list s2 ! ?i) < cur_time s3 + 1"
    using to by (simp add: word_less_nat_alt ct3')
  then have "due ?i (s3\<lparr>cur_time := cur_time s3 + 1\<rparr>)"
    using pos assms(5) x3 by (simp add: due_def sl3 is_running_def sl)
  with step_all_slot [OF st, of ?i] i2 l3
  have sl4: "timer_list s4 ! ?i = (timer_list s3 ! ?i)\<lparr>running := False\<rparr>"
    and "\<exists>c. callback (timer_list s3 ! ?i) = Some c
       \<and> callbacks_of ?i (trace s4) = callbacks_of ?i (trace s3) @ [Callback_called c ?i]"
    by simp_all
  then have tr4: "callbacks_of ?i (trace s4) = callbacks_of ?i (trace s) @ [Callback_called c ?i]"
    using assms(6) by (simp add: sl3 sl tr3 tr)
  have "step_all_times (Suc (unat D)) s2 = Inr s4"
    unfolding step_all_times_Suc by (simp add: n st)
  moreover have "cur_time s4 = cur_time s + D + 1"
    by (simp add: f(1) ct3')
  moreover have "\<not> is_running (timer_list s4 ! ?i)" and "is_expired (timer_list s4 ! ?i)"
    using pos assms(5) by (simp_all add: sl4 sl3 is_running_def is_expired_def sl)
  ultimately have "\<exists>s4. step_all_times (Suc (unat D)) s2 = Inr s4
            \<and> cur_time s4 = cur_time s + D + 1
            \<and> callbacks_of ?i (trace s4) = callbacks_of ?i (trace s) @ [Callback_called c ?i]
            \<and> \<not> is_running (timer_list s4 ! ?i)
            \<and> is_expired (timer_list s4 ! ?i)"
    using tr4 by blast
  with s1 r before show ?thesis by blast
qed

text \<open>The amended C2 on \<open>armed_service\<close> (clock 0), with \<open>D = 2\<close>.\<close>

theorem heap_timer_fires_after_duration_witness:
  "events_in_range armed_service \<and> callbacks_set armed_service
   \<and> parent (unique_timer_ctor 0) \<and> timer_id (unique_timer_ctor 0) < length (timer_list armed_service)
   \<and> active (timer_list armed_service ! timer_id (unique_timer_ctor 0))
   \<and> callback (timer_list armed_service ! timer_id (unique_timer_ctor 0)) = Some 1
   \<and> 0 < unat (cur_time armed_service) + unat (2 :: uint32_t)
   \<and> unat (cur_time armed_service) + unat (2 :: uint32_t) + 1 < 2 ^ 32
   \<and> (\<exists>s1 s2. unique_timer_set (unique_timer_ctor 0) 2 armed_service = Inr s1
        \<and> unique_timer_run (unique_timer_ctor 0) s1 = Inr s2
        \<and> (\<exists>s3. step_all_times 2 s2 = Inr s3 \<and> cur_time s3 = 2 \<and> callbacks_of 0 (trace s3) = []
              \<and> is_running (timer_list s3 ! 0))
        \<and> (\<exists>s4. step_all_times 3 s2 = Inr s4 \<and> cur_time s4 = 3
              \<and> callbacks_of 0 (trace s4) = [Callback_called 1 0]
              \<and> is_expired (timer_list s4 ! 0)))"
proof -
  have b: "0 < unat (cur_time armed_service) + unat (2 :: uint32_t)"
    "unat (cur_time armed_service) + unat (2 :: uint32_t) + 1 < 2 ^ 32"
    by (simp_all add: armed_service_conditions)
  from heap_timer_fires_after_duration [OF armed_service_conditions(1-6) b]
  obtain s1 s2 where s: "unique_timer_set (unique_timer_ctor 0) 2 armed_service = Inr s1"
    "unique_timer_run (unique_timer_ctor 0) s1 = Inr s2"
    and k: "\<forall>k \<le> unat (2 :: uint32_t). \<exists>s3. step_all_times k s2 = Inr s3
            \<and> cur_time s3 = cur_time armed_service + of_nat k
            \<and> callbacks_of (timer_id (unique_timer_ctor 0)) (trace s3) =
                callbacks_of (timer_id (unique_timer_ctor 0)) (trace armed_service)
            \<and> is_running (timer_list s3 ! timer_id (unique_timer_ctor 0))"
    and f: "\<exists>s4. step_all_times (Suc (unat (2 :: uint32_t))) s2 = Inr s4
            \<and> cur_time s4 = cur_time armed_service + 2 + 1
            \<and> callbacks_of (timer_id (unique_timer_ctor 0)) (trace s4) =
                callbacks_of (timer_id (unique_timer_ctor 0)) (trace armed_service)
                  @ [Callback_called 1 (timer_id (unique_timer_ctor 0))]
            \<and> \<not> is_running (timer_list s4 ! timer_id (unique_timer_ctor 0))
            \<and> is_expired (timer_list s4 ! timer_id (unique_timer_ctor 0))"
    by blast
  have i: "timer_id (unique_timer_ctor 0) = 0"
    by (simp add: unique_timer_ctor_def)
  from k [rule_format, of 2]
  have "\<exists>s3. step_all_times 2 s2 = Inr s3 \<and> cur_time s3 = 2 \<and> callbacks_of 0 (trace s3) = []
              \<and> is_running (timer_list s3 ! 0)"
    by (simp add: i armed_service_conditions callbacks_of_def)
  moreover from f
  have "\<exists>s4. step_all_times 3 s2 = Inr s4 \<and> cur_time s4 = 3
              \<and> callbacks_of 0 (trace s4) = [Callback_called 1 0]
              \<and> is_expired (timer_list s4 ! 0)"
    by (auto simp: i armed_service_conditions callbacks_of_def numeral_3_eq_3)
  ultimately show ?thesis
    using s b armed_service_conditions(1-6) by blast
qed

subsection \<open>A slot without an owner\<close>

lemma first_inactive_from_bounds:
  "i \<le> length ts \<Longrightarrow>
     i \<le> first_inactive_from i ts \<and> first_inactive_from i ts \<le> length ts
     \<and> (first_inactive_from i ts < length ts \<longrightarrow> \<not> active (ts ! first_inactive_from i ts))"
proof (induction i ts rule: first_inactive_from.induct)
  case (1 i ts)
  show ?case
  proof (cases "i < length ts \<and> active (ts ! i)")
    case True
    then have "first_inactive_from i ts = first_inactive_from (Suc i) ts"
      by (subst first_inactive_from.simps) simp
    with "1.IH" True show ?thesis by auto
  next
    case False
    then have "first_inactive_from i ts = i"
      by (subst first_inactive_from.simps) auto
    with False "1.prems" show ?thesis by auto
  qed
qed

lemma get_unique_timer_skips_active:
  assumes "j < length (timer_list s)" and "active (timer_list s ! j)"
  shows "timer_id (fst (get_unique_timer s)) \<noteq> j"
    and "parent (fst (get_unique_timer s))"
    and "length (timer_list s) \<le> length (timer_list (snd (get_unique_timer s)))"
    and "timer_list (snd (get_unique_timer s)) ! j = timer_list s ! j"
proof -
  let ?i = "first_inactive_from 0 (timer_list s)"
  from first_inactive_from_bounds [of 0 "timer_list s"] assms
  have ne: "?i \<noteq> j" and le: "?i \<le> length (timer_list s)"
    by auto
  show "timer_id (fst (get_unique_timer s)) \<noteq> j"
    using ne by (simp add: get_unique_timer_def Let_def unique_timer_ctor_def)
  show "parent (fst (get_unique_timer s))"
    by (simp add: get_unique_timer_def Let_def unique_timer_ctor_def)
  show "length (timer_list s) \<le> length (timer_list (snd (get_unique_timer s)))"
    by (simp add: get_unique_timer_def Let_def)
  show "timer_list (snd (get_unique_timer s)) ! j = timer_list s ! j"
    using ne assms(1) by (simp add: get_unique_timer_def Let_def nth_append)
qed

text \<open>
  What the calls on a handle do to the slots the handle does not point to.
\<close>

lemma handle_call_frame:
  assumes "r = unique_timer_set h d s \<or> r = unique_timer_set_callback h d c s
      \<or> r = unique_timer_run h s \<or> r = unique_timer_stop h s \<or> r = destroy h s"
    and "state_after r = Some s'" and "\<not> parent h \<or> timer_id h \<noteq> j"
  shows "length (timer_list s') = length (timer_list s) \<and> timer_list s' ! j = timer_list s ! j"
  using assms
  by (auto simp: unique_timer_set_def unique_timer_set_callback_def unique_timer_run_def
      unique_timer_stop_def destroy_def impl_def timer_impl_set_def timer_impl_set_callback_def
      timer_impl_run_def Let_def split: if_splits)

lemma unowned_active_handle_call:
  assumes u: "unowned_active j w" and k: "k < length (handles w)"
    and r: "r = unique_timer_set (handles w ! k) d (service w)
      \<or> r = unique_timer_set_callback (handles w ! k) d c (service w)
      \<or> r = unique_timer_run (handles w ! k) (service w)
      \<or> r = unique_timer_stop (handles w ! k) (service w)"
    and o: "on_service r w = Some w'"
  shows "unowned_active j w'"
proof -
  from o obtain s' where a: "state_after r = Some s'" and w': "w' = w\<lparr>service := s'\<rparr>"
    by (auto simp: on_service_def)
  from u k have "\<not> parent (handles w ! k) \<or> timer_id (handles w ! k) \<noteq> j"
    by (simp add: unowned_active_def list_all_length)
  with handle_call_frame [of r "handles w ! k" d "service w" c s' j] r a
  have "length (timer_list s') = length (timer_list (service w))
      \<and> timer_list s' ! j = timer_list (service w) ! j"
    by blast
  with u show ?thesis
    by (simp add: unowned_active_def w')
qed

text \<open>
  A slot that is active and that no handle with a parent points to stays so under
  every call.
\<close>

lemma unowned_active_call:
  assumes u: "unowned_active j w" and c: "call_world c w = Some w'"
  shows "unowned_active j w'"
proof (cases c)
  case Get_unique_timer
  from u have j: "j < length (timer_list (service w))" "active (timer_list (service w) ! j)"
    by (simp_all add: unowned_active_def)
  note g = get_unique_timer_skips_active [OF j]
  from c Get_unique_timer
  have w': "w' = \<lparr>service = snd (get_unique_timer (service w)),
      handles = handles w @ [fst (get_unique_timer (service w))]\<rparr>"
    by (simp split: prod.splits)
  show ?thesis
    using u g j by (simp add: unowned_active_def w')
next
  case (Move_construct k)
  with c have k: "k < length (handles w)"
    and w': "w' = w\<lparr>handles := (handles w)[k := (handles w ! k)\<lparr>parent := False\<rparr>]
        @ [\<lparr>parent = parent (handles w ! k), timer_id = timer_id (handles w ! k)\<rparr>]\<rparr>"
    by (auto simp: move_construct_def split: if_splits)
  from u k have "\<not> parent (handles w ! k) \<or> timer_id (handles w ! k) \<noteq> j"
    by (simp add: unowned_active_def list_all_length)
  with u show ?thesis
    by (auto simp: unowned_active_def w' list_all_iff dest: set_update_subset_insert [THEN subsetD])
next
  case (Move_assign k l)
  show ?thesis
  proof (cases "k = l")
    case True
    with c Move_assign have "w' = w" by (simp split: if_splits)
    with u show ?thesis by simp
  next
    case False
    with c Move_assign have k: "k < length (handles w)" and l: "l < length (handles w)"
      and w': "w' = w\<lparr>handles := (handles w)
          [k := (handles w ! k)\<lparr>timer_id := timer_id (handles w ! l), parent := parent (handles w ! l)\<rparr>,
           l := (handles w ! l)\<lparr>parent := False\<rparr>]\<rparr>"
      by (auto simp: move_assign_def split: if_splits)
    from u l have "\<not> parent (handles w ! l) \<or> timer_id (handles w ! l) \<noteq> j"
      by (simp add: unowned_active_def list_all_length)
    with u show ?thesis
      by (auto simp: unowned_active_def w' list_all_iff
          dest!: set_update_subset_insert [THEN subsetD])
  qed
next
  case (Destroy k)
  with c obtain s' where k: "k < length (handles w)"
    and a: "state_after (destroy (handles w ! k) (service w)) = Some s'"
    and w': "w' = \<lparr>service = s', handles = take k (handles w) @ drop (Suc k) (handles w)\<rparr>"
    by (auto split: if_splits)
  from u k have "\<not> parent (handles w ! k) \<or> timer_id (handles w ! k) \<noteq> j"
    by (simp add: unowned_active_def list_all_length)
  with handle_call_frame [of "destroy (handles w ! k) (service w)" "handles w ! k" 0
      "service w" None s' j] a
  have "length (timer_list s') = length (timer_list (service w))
      \<and> timer_list s' ! j = timer_list (service w) ! j"
    by blast
  with u show ?thesis
    by (auto simp: unowned_active_def w' list_all_iff dest: in_set_takeD in_set_dropD)
next
  case (Set k d)
  with c show ?thesis
    using unowned_active_handle_call [OF u, of k _ d None w'] by (auto split: if_splits)
next
  case (Set_callback k d cb)
  with c show ?thesis
    using unowned_active_handle_call [OF u, of k _ d cb w'] by (auto split: if_splits)
next
  case (Run k)
  with c show ?thesis
    using unowned_active_handle_call [OF u, of k _ 0 None w'] by (auto split: if_splits)
next
  case (Stop k)
  with c show ?thesis
    using unowned_active_handle_call [OF u, of k _ 0 None w'] by (auto split: if_splits)
next
  case Step_all
  with c obtain s' where a: "state_after (step_all (service w)) = Some s'"
    and w': "w' = w\<lparr>service := s'\<rparr>"
    by (auto simp: on_service_def)
  note f = step_all_after [OF a]
  from u have j: "j < length (timer_list (service w))" and "active (timer_list (service w) ! j)"
    by (simp_all add: unowned_active_def)
  with f(3) have "active (timer_list s' ! j)" by auto
  with u f(1) show ?thesis
    by (simp add: unowned_active_def w')
next
  case Stop_all
  with c have "w' = w\<lparr>service := stop_all (service w)\<rparr>" by simp
  with u show ?thesis
    by (simp add: unowned_active_def stop_all_def)
qed

lemma unowned_active_calls:
  "unowned_active j w \<Longrightarrow> calls_world cs w = Some w' \<Longrightarrow> unowned_active j w'"
proof (induction cs arbitrary: w)
  case Nil
  then show ?case by simp
next
  case (Cons c cs)
  from Cons.prems(2) obtain w1 where c: "call_world c w = Some w1"
    and cs: "calls_world cs w1 = Some w'"
    by (auto split: option.splits)
  from unowned_active_call [OF Cons.prems(1) c] cs show ?case
    by (rule Cons.IH)
qed

lemma two_handles_reached:
  "calls_world [Get_unique_timer, Get_unique_timer] \<lparr>service = timers2_ctor, handles = []\<rparr> =
     Some two_handles"
  by code_simp

text \<open>
  C9.  In a program, let handle \<open>k\<close> have its parent and point to the active slot \<open>j\<close>,
  with no other handle that has its parent pointing to \<open>j\<close>.  Move-assigning another
  handle \<open>l\<close> onto \<open>k\<close> does not touch the service: slot \<open>j\<close> keeps \<open>active\<close> and all its
  other fields, and no handle with a parent points to it any more.  This stays so
  under every sequence of calls of the program that follows; at every moment
  \<^verbatim>\<open>get_unique_timer()\<close> returns a slot other than \<open>j\<close>.
\<close>

theorem move_assign_leaks_slot:
  assumes "k < length (handles w)" and "l < length (handles w)" and "k \<noteq> l"
    and "parent (handles w ! k)" and "timer_id (handles w ! k) = j"
    and "j < length (timer_list (service w))" and "active (timer_list (service w) ! j)"
    and "\<forall>m < length (handles w). m \<noteq> k \<longrightarrow> \<not> parent (handles w ! m) \<or> timer_id (handles w ! m) \<noteq> j"
  shows "\<exists>w1. call_world (Move_assign k l) w = Some w1
      \<and> service w1 = service w
      \<and> active (timer_list (service w1) ! j)
      \<and> list_all (\<lambda>h. \<not> parent h \<or> timer_id h \<noteq> j) (handles w1)
      \<and> (\<forall>cs w'. calls_world cs w1 = Some w' \<longrightarrow>
            active (timer_list (service w') ! j)
            \<and> list_all (\<lambda>h. \<not> parent h \<or> timer_id h \<noteq> j) (handles w')
            \<and> timer_id (fst (get_unique_timer (service w'))) \<noteq> j)"
proof -
  define w1 where "w1 = w\<lparr>handles := (handles w)
          [k := (handles w ! k)\<lparr>timer_id := timer_id (handles w ! l), parent := parent (handles w ! l)\<rparr>,
           l := (handles w ! l)\<lparr>parent := False\<rparr>]\<rparr>"
  have c: "call_world (Move_assign k l) w = Some w1"
    using assms(1-3) by (simp add: w1_def move_assign_def)
  have s: "service w1 = service w"
    by (simp add: w1_def)
  have hs: "list_all (\<lambda>h. \<not> parent h \<or> timer_id h \<noteq> j) (handles w1)"
    unfolding list_all_length
  proof (intro allI impI)
    fix m assume "m < length (handles w1)"
    then have m: "m < length (handles w)" by (simp add: w1_def)
    from assms(2,3,8) have "\<not> parent (handles w ! l) \<or> timer_id (handles w ! l) \<noteq> j"
      by blast
    with assms(8) m show "\<not> parent (handles w1 ! m) \<or> timer_id (handles w1 ! m) \<noteq> j"
      by (cases "m = l"; cases "m = k") (simp_all add: w1_def)
  qed
  with assms(6,7) s have u: "unowned_active j w1"
    by (simp add: unowned_active_def)
  have "\<forall>cs w'. calls_world cs w1 = Some w' \<longrightarrow>
            active (timer_list (service w') ! j)
            \<and> list_all (\<lambda>h. \<not> parent h \<or> timer_id h \<noteq> j) (handles w')
            \<and> timer_id (fst (get_unique_timer (service w'))) \<noteq> j"
  proof (intro allI impI)
    fix cs w' assume "calls_world cs w1 = Some w'"
    with u have u': "unowned_active j w'" by (rule unowned_active_calls)
    then have "j < length (timer_list (service w'))" "active (timer_list (service w') ! j)"
      by (simp_all add: unowned_active_def)
    from get_unique_timer_skips_active(1) [OF this] u'
    show "active (timer_list (service w') ! j)
            \<and> list_all (\<lambda>h. \<not> parent h \<or> timer_id h \<noteq> j) (handles w')
            \<and> timer_id (fst (get_unique_timer (service w'))) \<noteq> j"
      by (simp add: unowned_active_def)
  qed
  with c s hs assms(7) show ?thesis by simp
qed

text \<open>
  C9 on \<open>two_handles\<close>, handle 1 move-assigned onto handle 0: slot 0 is left active.
  After both handles are destroyed, \<^verbatim>\<open>get_unique_timer()\<close> takes slot 1 again, not
  slot 0.
\<close>

theorem move_assign_leaks_slot_witness:
  "calls_world [Get_unique_timer, Get_unique_timer] \<lparr>service = timers2_ctor, handles = []\<rparr> =
     Some two_handles
   \<and> 0 < length (handles two_handles) \<and> 1 < length (handles two_handles) \<and> (0 :: nat) \<noteq> 1
   \<and> parent (handles two_handles ! 0) \<and> timer_id (handles two_handles ! 0) = 0
   \<and> 0 < length (timer_list (service two_handles))
   \<and> active (timer_list (service two_handles) ! 0)
   \<and> timer_id (handles two_handles ! 1) \<noteq> 0
   \<and> call_world (Move_assign 0 1) two_handles =
       Some (two_handles\<lparr>handles := [\<lparr>parent = True, timer_id = 1\<rparr>, \<lparr>parent = False, timer_id = 1\<rparr>]\<rparr>)
   \<and> calls_world [Destroy 1, Destroy 0, Get_unique_timer]
        (two_handles\<lparr>handles := [\<lparr>parent = True, timer_id = 1\<rparr>, \<lparr>parent = False, timer_id = 1\<rparr>]\<rparr>) =
       Some (two_handles\<lparr>handles := [\<lparr>parent = True, timer_id = 1\<rparr>]\<rparr>)
   \<and> active (timer_list (service (two_handles\<lparr>handles := [\<lparr>parent = True, timer_id = 1\<rparr>]\<rparr>)) ! 0)
   \<and> timer_id (fst (get_unique_timer
         (service (two_handles\<lparr>handles := [\<lparr>parent = True, timer_id = 1\<rparr>]\<rparr>)))) \<noteq> 0"
proof -
  let ?w1 = "two_handles\<lparr>handles := [\<lparr>parent = True, timer_id = 1\<rparr>, \<lparr>parent = False, timer_id = 1\<rparr>]\<rparr>"
  let ?w2 = "two_handles\<lparr>handles := [\<lparr>parent = True, timer_id = 1\<rparr>]\<rparr>"
  have h: "0 < length (handles two_handles)" "1 < length (handles two_handles)" "(0 :: nat) \<noteq> 1"
    "parent (handles two_handles ! 0)" "timer_id (handles two_handles ! 0) = 0"
    "0 < length (timer_list (service two_handles))"
    "active (timer_list (service two_handles) ! 0)"
    and o: "timer_id (handles two_handles ! 1) \<noteq> 0"
    by (simp_all add: two_handles_def)
  have a: "\<forall>m < length (handles two_handles). m \<noteq> 0 \<longrightarrow>
      \<not> parent (handles two_handles ! m) \<or> timer_id (handles two_handles ! m) \<noteq> 0"
    by (simp add: two_handles_def less_Suc_eq)
  have m: "call_world (Move_assign 0 1) two_handles = Some ?w1"
    by code_simp
  have cs: "calls_world [Destroy 1, Destroy 0, Get_unique_timer] ?w1 = Some ?w2"
    by code_simp
  from move_assign_leaks_slot [OF h a] m
  have "\<forall>cs w'. calls_world cs ?w1 = Some w' \<longrightarrow>
            active (timer_list (service w') ! 0)
            \<and> list_all (\<lambda>h. \<not> parent h \<or> timer_id h \<noteq> 0) (handles w')
            \<and> timer_id (fst (get_unique_timer (service w'))) \<noteq> 0"
    by simp
  with cs have "active (timer_list (service ?w2) ! 0)"
    and "timer_id (fst (get_unique_timer (service ?w2))) \<noteq> 0"
    by blast+
  with two_handles_reached h o m cs show ?thesis
    by blast
qed

subsection \<open>Events in range\<close>

text \<open>
  Every event in range is no restriction: it holds in a new service and no call of a
  program breaks it.
\<close>

lemma events_in_range_handle_call:
  assumes "events_in_range s"
    and "r = unique_timer_set h d s \<or> r = unique_timer_set_callback h d c s
      \<or> r = unique_timer_run h s \<or> r = unique_timer_stop h s \<or> r = destroy h s"
    and "state_after r = Some s'"
  shows "events_in_range s'"
  using assms
  by (auto simp: events_in_range_def unique_timer_set_def unique_timer_set_callback_def
      unique_timer_run_def unique_timer_stop_def destroy_def impl_def timer_impl_set_def
      timer_impl_set_callback_def timer_impl_run_def emplace_def Let_def split: if_splits)

lemma events_in_range_get_unique_timer:
  assumes "events_in_range s"
  shows "events_in_range (snd (get_unique_timer s))"
  using assms
  by (auto simp: events_in_range_def get_unique_timer_def Let_def list_all_iff)

lemma events_in_range_call:
  assumes e: "events_in_range (service w)" and c: "call_world c w = Some w'"
  shows "events_in_range (service w')"
proof (cases c)
  case Get_unique_timer
  with c have "service w' = snd (get_unique_timer (service w))"
    by (auto split: prod.splits)
  with e show ?thesis
    by (simp add: events_in_range_get_unique_timer)
next
  case (Move_construct k)
  with c have "service w' = service w"
    by (auto split: if_splits prod.splits)
  with e show ?thesis by simp
next
  case (Move_assign k l)
  with c have "service w' = service w"
    by (auto split: if_splits prod.splits)
  with e show ?thesis by simp
next
  case (Destroy k)
  with c have "state_after (destroy (handles w ! k) (service w)) = Some (service w')"
    by (auto split: if_splits)
  with e show ?thesis
    using events_in_range_handle_call by blast
next
  case (Set k d)
  with c have "state_after (unique_timer_set (handles w ! k) d (service w)) = Some (service w')"
    by (auto simp: on_service_def split: if_splits)
  with e show ?thesis
    using events_in_range_handle_call by blast
next
  case (Set_callback k d cb)
  with c
  have "state_after (unique_timer_set_callback (handles w ! k) d cb (service w)) = Some (service w')"
    by (auto simp: on_service_def split: if_splits)
  with e show ?thesis
    using events_in_range_handle_call by blast
next
  case (Run k)
  with c have "state_after (unique_timer_run (handles w ! k) (service w)) = Some (service w')"
    by (auto simp: on_service_def split: if_splits)
  with e show ?thesis
    using events_in_range_handle_call by blast
next
  case (Stop k)
  with c have "state_after (unique_timer_stop (handles w ! k) (service w)) = Some (service w')"
    by (auto simp: on_service_def split: if_splits)
  with e show ?thesis
    using events_in_range_handle_call by blast
next
  case Step_all
  with c have a: "state_after (step_all (service w)) = Some (service w')"
    by (auto simp: on_service_def)
  note f = step_all_after [OF a]
  from e f(2) f(1) show ?thesis
    by (rule events_in_range_subset)
next
  case Stop_all
  with c have "service w' = stop_all (service w)" by auto
  then show ?thesis
    by (simp add: events_in_range_def stop_all_def)
qed

lemma events_in_range_reachable:
  "events_in_range (service w) \<Longrightarrow> calls_world cs w = Some w' \<Longrightarrow> events_in_range (service w')"
proof (induction cs arbitrary: w)
  case Nil
  then show ?case by simp
next
  case (Cons c cs)
  from Cons.prems(2) obtain w1 where c: "call_world c w = Some w1"
    and cs: "calls_world cs w1 = Some w'"
    by (auto split: option.splits)
  from events_in_range_call [OF Cons.prems(1) c] cs show ?case
    by (rule Cons.IH)
qed

lemma events_in_range_new: "events_in_range timers2_ctor"
  by (simp add: events_in_range_def timers2_ctor_def)

end
